theory Spec2Isabelle
  imports Complex_Main
begin

unbundle bit_operations_syntax

section \<open>Data model of \<open>cache_sim.py\<close>\<close>

text \<open>
  Python integers are unbounded, so every counter, size and address is an \<open>int\<close>:
  \<open>//\<close> and \<open>%\<close> are \<open>div\<close> and \<open>mod\<close> (both floor), \<open>>>\<close> is \<open>drop_bit\<close> and \<open>&\<close> is
  \<open>AND\<close> on two's complement integers. Exceptions are values of \<open>error\<close>; a function that
  can raise returns \<open>error + 'a\<close>. Printing and timestamps are left out.
\<close>

datatype error = ValueError | IndexError | ZeroDivisionError

section \<open>Helpers standing for Python built-ins\<close>

text \<open>\<open>str.upper\<close> on ASCII text (the policy names are ASCII).\<close>

definition upper_char :: "char \<Rightarrow> char" where
  "upper_char c =
     (let n = (of_char c :: nat) in if 97 \<le> n \<and> n \<le> 122 then char_of (n - 32) else c)"

definition upper :: "string \<Rightarrow> string" where
  "upper s = map upper_char s"

text \<open>\<open>int.bit_length\<close>: the number of bits of the absolute value, 0 for 0.\<close>

function bit_length :: "int \<Rightarrow> nat" where
  "bit_length n = (if n = 0 then 0 else Suc (bit_length (\<bar>n\<bar> div 2)))"
  by pat_completeness auto
termination
  by (relation "measure (\<lambda>n. nat \<bar>n\<bar>)") auto

declare bit_length.simps [simp del]

text \<open>
  A Python list subscript on a list of length \<open>n\<close>: an index from \<open>-n\<close> to \<open>-1\<close> counts
  from the end, anything outside \<open>-n .. n-1\<close> raises \<open>IndexError\<close>.
\<close>

definition py_index :: "nat \<Rightarrow> int \<Rightarrow> error + nat" where
  "py_index n i =
     (if 0 \<le> i \<and> i < int n then Inr (nat i)
      else if - int n \<le> i \<and> i < 0 then Inr (nat (int n + i))
      else Inl IndexError)"

text \<open>
  Python floats are IEEE 754 doubles. A finite double is held as a pair \<open>(m, j)\<close> of
  integers standing for \<open>m * 2 ^ j\<close>. Every float operation used here returns the double
  nearest to the exact result, ties going to the even mantissa:

  \<^item> \<open>round_half_even n d\<close> is the integer nearest to \<open>n / d\<close> (for \<open>0 \<le> n\<close>, \<open>0 < d\<close>);
  \<^item> \<open>round_quot p q\<close> is the double nearest to \<open>p / q\<close> (for \<open>0 \<le> p\<close>, \<open>0 < q\<close>): with
    \<open>2 ^ e \<le> p / q < 2 ^ (e + 1)\<close> the doubles around \<open>p / q\<close> are the multiples of
    \<open>2 ^ j\<close>, \<open>j = max (e - 52) (-1074)\<close> (53 bits of mantissa, and the fixed spacing
    \<open>2 ^ -1074\<close> of the subnormal range);
  \<^item> \<open>py_truediv a b\<close> is \<open>a / b\<close> on two \<open>int\<close>s, which CPython rounds correctly from
    the exact quotient;
  \<^item> \<open>float_mul_int x c\<close> is \<open>x * c\<close> for a float \<open>x\<close> and an \<open>int\<close> \<open>c\<close> that a
    double holds exactly (here 100).

  Results beyond the largest double (an \<open>OverflowError\<close> of \<open>/\<close>, an infinity of \<open>*\<close>)
  are not modelled: the quotients formed here are at most 1.
\<close>

definition round_half_even :: "int \<Rightarrow> int \<Rightarrow> int" where
  "round_half_even n d =
     (let f = n div d; r = n mod d
      in if 2 * r < d then f else if d < 2 * r then f + 1
         else if even f then f else f + 1)"

definition round_quot :: "int \<Rightarrow> int \<Rightarrow> int \<times> int" where
  "round_quot p q =
     (if p = 0 then (0, 0)
      else let k = int (bit_length p) - int (bit_length q);
               e = (if q * 2 ^ nat k \<le> p * 2 ^ nat (- k) then k else k - 1);
               j = max (e - 52) (- 1074)
           in (round_half_even (p * 2 ^ nat (- j)) (q * 2 ^ nat j), j))"

definition double_value :: "int \<times> int \<Rightarrow> real" where
  "double_value x = of_int (fst x) * 2 powi (snd x)"

definition py_truediv :: "int \<Rightarrow> int \<Rightarrow> int \<times> int" where
  "py_truediv a b =
     (let (m, j) = round_quot \<bar>a\<bar> \<bar>b\<bar> in (sgn a * sgn b * m, j))"

definition float_mul_int :: "int \<times> int \<Rightarrow> int \<Rightarrow> int \<times> int" where
  "float_mul_int x c =
     (let n = fst x * c;
          (m, j) = round_quot (\<bar>n\<bar> * 2 ^ nat (snd x)) (2 ^ nat (- snd x))
      in (sgn n * m, j))"

section \<open>The classes\<close>

text \<open>class \<open>CacheLine\<close>.\<close>

record CacheLine =
  valid :: bool
  tag :: int
  last_used :: int

definition CacheLine_init :: CacheLine where
  "CacheLine_init = \<lparr>valid = False, tag = 0, last_used = 0\<rparr>"

text \<open>
  class \<open>CacheStats\<close>. A hit-rate sample is the Python float
  \<open>(self.hits / self.total_accesses) * 100\<close>: the true division of the two integers
  rounded to a double, times 100, rounded again. The history holds the real number each
  double stands for (and the integer 0 of the \<open>else\<close> branch).
\<close>

record CacheStats =
  total_accesses :: int
  hits :: int
  misses :: int
  evictions :: int
  hit_rate_history :: "real list"

definition CacheStats_init :: CacheStats where
  "CacheStats_init =
     \<lparr>total_accesses = 0, hits = 0, misses = 0, evictions = 0, hit_rate_history = []\<rparr>"

definition record_access :: "CacheStats \<Rightarrow> bool \<Rightarrow> CacheStats" where
  "record_access st is_hit =
     (let st1 = st\<lparr>total_accesses := total_accesses st + 1\<rparr>;
          st2 = (if is_hit then st1\<lparr>hits := hits st1 + 1\<rparr>
                 else st1\<lparr>misses := misses st1 + 1\<rparr>);
          hit_rate = (if total_accesses st2 > 0
                      then double_value
                             (float_mul_int (py_truediv (hits st2) (total_accesses st2)) 100)
                      else 0)
      in st2\<lparr>hit_rate_history := hit_rate_history st2 @ [hit_rate]\<rparr>)"

definition record_eviction :: "CacheStats \<Rightarrow> CacheStats" where
  "record_eviction st = st\<lparr>evictions := evictions st + 1\<rparr>"

text \<open>class \<open>CacheSimulator\<close>: the fields assigned by \<open>__init__\<close>.\<close>

record CacheSimulator =
  cache_size :: int
  block_size :: int
  associativity :: int
  replacement_policy :: string
  num_blocks :: int
  num_sets :: int
  access_counter :: int
  cache_array :: "CacheLine list list"
  fifo_idx :: "int list"
  stats :: CacheStats

section \<open>Construction and reset\<close>

text \<open>
  \<open>CacheSimulator.__init__\<close>. The two floor divisions come before the validation, so a
  zero divisor raises \<open>ZeroDivisionError\<close> before any check is reached.
\<close>

definition CacheSimulator_init ::
    "int \<Rightarrow> int \<Rightarrow> int \<Rightarrow> string \<Rightarrow> error + CacheSimulator" where
  "CacheSimulator_init csz bsz assoc policy =
     (if bsz = 0 then Inl ZeroDivisionError
      else let nb = csz div bsz in
        if assoc = 0 then Inl ZeroDivisionError
        else let ns = nb div assoc; pol = upper policy in
          if csz \<le> 0 \<or> bsz \<le> 0 \<or> assoc \<le> 0 then Inl ValueError
          else if nb * bsz \<noteq> csz then Inl ValueError
          else if ns * assoc \<noteq> nb then Inl ValueError
          else if pol \<notin> set [''FIFO'', ''LRU''] then Inl ValueError
          else Inr \<lparr>cache_size = csz, block_size = bsz, associativity = assoc,
                    replacement_policy = pol, num_blocks = nb, num_sets = ns,
                    access_counter = 0,
                    cache_array = replicate (nat ns) (replicate (nat assoc) CacheLine_init),
                    fifo_idx = replicate (nat ns) 0,
                    stats = CacheStats_init\<rparr>)"

text \<open>
  \<open>CacheSimulator.init_cache\<close>: the inner loop over the ways of one set, and the outer
  loop over the sets, each as a recursion over the indices that \<open>range\<close> yields.
\<close>

fun reset_ways :: "CacheLine list \<Rightarrow> nat list \<Rightarrow> error + CacheLine list" where
  "reset_ways cs [] = Inr cs"
| "reset_ways cs (w # ws) =
     (if w < length cs
      then reset_ways (cs[w := (cs ! w)\<lparr>valid := False, tag := 0, last_used := 0\<rparr>]) ws
      else Inl IndexError)"

fun reset_sets ::
    "CacheLine list list \<Rightarrow> int list \<Rightarrow> nat \<Rightarrow> nat list \<Rightarrow>
     error + (CacheLine list list \<times> int list)" where
  "reset_sets ca fi a [] = Inr (ca, fi)"
| "reset_sets ca fi a (i # is) =
     (if i < length ca then
        (case reset_ways (ca ! i) [0..<a] of
           Inl e \<Rightarrow> Inl e
         | Inr cs \<Rightarrow>
             if i < length fi then reset_sets (ca[i := cs]) (fi[i := 0]) a is
             else Inl IndexError)
      else Inl IndexError)"

definition init_cache :: "CacheSimulator \<Rightarrow> error + CacheSimulator" where
  "init_cache s =
     (case reset_sets (cache_array s) (fifo_idx s) (nat (associativity s))
             [0..<nat (num_sets s)] of
        Inl e \<Rightarrow> Inl e
      | Inr (ca, fi) \<Rightarrow> Inr (s\<lparr>cache_array := ca, fifo_idx := fi\<rparr>))"

section \<open>One access\<close>

text \<open>
  What one call of \<open>access_cache\<close> shows: the returned flag, the set index and way of its
  log line, and the tag of the line it evicted (\<open>None\<close> when the "Evicting" line is not
  printed).
\<close>

record Outcome =
  hit :: bool
  set_index :: int
  way :: int
  evicted :: "int option"

text \<open>The hit scan: \<open>for way in range(associativity)\<close>, leaving at the first match.\<close>

fun find_hit :: "CacheLine list \<Rightarrow> int \<Rightarrow> nat list \<Rightarrow> error + nat option" where
  "find_hit cs t [] = Inr None"
| "find_hit cs t (w # ws) =
     (if w < length cs
      then (if valid (cs ! w) \<and> tag (cs ! w) = t then Inr (Some w) else find_hit cs t ws)
      else Inl IndexError)"

text \<open>
  \<open>min(range(associativity), key=lambda w: current_set[w].last_used)\<close>: \<open>min\<close> keeps
  the first item and replaces it only by an item whose key is strictly smaller; on an
  empty range it raises \<open>ValueError\<close>.
\<close>

fun lru_scan :: "CacheLine list \<Rightarrow> nat \<Rightarrow> nat list \<Rightarrow> error + nat" where
  "lru_scan cs best [] = Inr best"
| "lru_scan cs best (w # ws) =
     (if w < length cs
      then lru_scan cs (if last_used (cs ! w) < last_used (cs ! best) then w else best) ws
      else Inl IndexError)"

definition lru_min :: "CacheLine list \<Rightarrow> nat \<Rightarrow> error + nat" where
  "lru_min cs a =
     (case [0..<a] of
        [] \<Rightarrow> Inl ValueError
      | w # ws \<Rightarrow> if w < length cs then lru_scan cs w ws else Inl IndexError)"

text \<open>
  The choice of the way to replace (the \<open>if\<close> on the policy): the chosen index and the
  FIFO cursors after it.
\<close>

definition select_victim ::
    "CacheSimulator \<Rightarrow> int \<Rightarrow> CacheLine list \<Rightarrow> error + (int \<times> int list)" where
  "select_victim s set_idx current_set =
     (if replacement_policy s = ''FIFO'' then
        (case py_index (length (fifo_idx s)) set_idx of
           Inl e \<Rightarrow> Inl e
         | Inr fi \<Rightarrow>
             if associativity s = 0 then Inl ZeroDivisionError
             else Inr (fifo_idx s ! fi,
                       (fifo_idx s)[fi := (fifo_idx s ! fi + 1) mod associativity s]))
      else
        (case lru_min current_set (nat (associativity s)) of
           Inl e \<Rightarrow> Inl e
         | Inr w \<Rightarrow> Inr (int w, fifo_idx s)))"

text \<open>The two values \<open>access_cache\<close> computes from the address.\<close>

definition set_index_of :: "CacheSimulator \<Rightarrow> int \<Rightarrow> int" where
  "set_index_of s address = (drop_bit 4 address) AND (num_sets s - 1)"

definition tag_of :: "CacheSimulator \<Rightarrow> int \<Rightarrow> int" where
  "tag_of s address = drop_bit (nat (4 + (int (bit_length (num_sets s)) - 1))) address"

text \<open>\<open>CacheSimulator.access_cache\<close>.\<close>

definition access_cache :: "CacheSimulator \<Rightarrow> int \<Rightarrow> error + (Outcome \<times> CacheSimulator)" where
  "access_cache s address =
     (let counter = access_counter s + 1;
          s1 = s\<lparr>access_counter := counter\<rparr>;
          set_idx = set_index_of s1 address;
          tag_value = tag_of s1 address
      in case py_index (length (cache_array s1)) set_idx of
           Inl e \<Rightarrow> Inl e
         | Inr si \<Rightarrow>
            (let current_set = cache_array s1 ! si in
             case find_hit current_set tag_value [0..<nat (associativity s1)] of
               Inl e \<Rightarrow> Inl e
             | Inr (Some w) \<Rightarrow>
                 Inr (\<lparr>hit = True, set_index = set_idx, way = int w, evicted = None\<rparr>,
                      s1\<lparr>cache_array :=
                            (cache_array s1)[si := current_set[w :=
                               (current_set ! w)\<lparr>last_used := counter\<rparr>]],
                         stats := record_access (stats s1) True\<rparr>)
             | Inr None \<Rightarrow>
                (case select_victim s1 set_idx current_set of
                   Inl e \<Rightarrow> Inl e
                 | Inr (replace_idx, fifo') \<Rightarrow>
                    (case py_index (length current_set) replace_idx of
                       Inl e \<Rightarrow> Inl e
                     | Inr ri \<Rightarrow>
                        (let victim = current_set ! ri;
                             st1 = (if valid victim then record_eviction (stats s1)
                                    else stats s1)
                         in Inr (\<lparr>hit = False, set_index = set_idx, way = replace_idx,
                                   evicted = (if valid victim then Some (tag victim)
                                              else None)\<rparr>,
                                 s1\<lparr>cache_array :=
                                       (cache_array s1)[si := current_set[ri :=
                                          \<lparr>valid = True, tag = tag_value,
                                           last_used = counter\<rparr>]],
                                    fifo_idx := fifo',
                                    stats := record_access st1 False\<rparr>))))))"

text \<open>The loop of \<open>main\<close> over the trace, collecting what each access shows.\<close>

fun run_trace ::
    "CacheSimulator \<Rightarrow> int list \<Rightarrow> error + (Outcome list \<times> CacheSimulator)" where
  "run_trace s [] = Inr ([], s)"
| "run_trace s (a # as) =
     (case access_cache s a of
        Inl e \<Rightarrow> Inl e
      | Inr (out, s') \<Rightarrow>
         (case run_trace s' as of
            Inl e \<Rightarrow> Inl e
          | Inr (outs, s'') \<Rightarrow> Inr (out # outs, s'')))"

text \<open>
  \<open>main\<close> without its input and output: construct, \<open>init_cache\<close>, then the trace.
\<close>

definition simulate ::
    "int \<Rightarrow> int \<Rightarrow> int \<Rightarrow> string \<Rightarrow> int list \<Rightarrow> error + (Outcome list \<times> CacheSimulator)" where
  "simulate csz bsz assoc policy trace =
     (case CacheSimulator_init csz bsz assoc policy of
        Inl e \<Rightarrow> Inl e
      | Inr s \<Rightarrow>
         (case init_cache s of
            Inl e \<Rightarrow> Inl e
          | Inr s' \<Rightarrow> run_trace s' trace))"

text \<open>The default configuration and the default trace of \<open>main\<close>.\<close>

definition DEFAULT_CACHE_SIZE :: int where
  "DEFAULT_CACHE_SIZE = 1024"

definition DEFAULT_BLOCK_SIZE :: int where
  "DEFAULT_BLOCK_SIZE = 16"

definition DEFAULT_ASSOCIATIVITY :: int where
  "DEFAULT_ASSOCIATIVITY = 2"

definition default_trace :: "int list" where
  "default_trace = [0x0000A3C4, 0x0000A3D0, 0x0000A3C4, 0x0000A3D0,
                    0x0000B3C4, 0x0000C3C4, 0x0000A3C4, 0x0000D3C4]"

text \<open>
  What a run reports: HIT or MISS for each address, and the eviction count of the
  summary.
\<close>

definition report :: "error + (Outcome list \<times> CacheSimulator) \<Rightarrow> error + (bool list \<times> int)" where
  "report r =
     (case r of Inl e \<Rightarrow> Inl e | Inr (outs, s) \<Rightarrow> Inr (map hit outs, evictions (stats s)))"

section \<open>Invariants of a simulator object\<close>

text \<open>
  The states a simulator object goes through: the one \<open>__init__\<close> returns, and those
  that \<open>access_cache\<close> and \<open>init_cache\<close> lead to.
\<close>

inductive reachable :: "CacheSimulator \<Rightarrow> bool" where
  constructed: "CacheSimulator_init csz bsz assoc policy = Inr s \<Longrightarrow> reachable s"
| accessed: "reachable s \<Longrightarrow> access_cache s address = Inr (out, s') \<Longrightarrow> reachable s'"
| reinitialised: "reachable s \<Longrightarrow> init_cache s = Inr s' \<Longrightarrow> reachable s'"

text \<open>The shape of the arrays: \<open>num_sets\<close> sets of \<open>associativity\<close> lines, cursors in range.\<close>

definition shape_ok :: "CacheSimulator \<Rightarrow> bool" where
  "shape_ok s \<longleftrightarrow>
     1 \<le> num_sets s \<and> 1 \<le> associativity s \<and>
     length (cache_array s) = nat (num_sets s) \<and>
     (\<forall>cs \<in> set (cache_array s). length cs = nat (associativity s)) \<and>
     length (fifo_idx s) = nat (num_sets s) \<and>
     (\<forall>c \<in> set (fifo_idx s). 0 \<le> c \<and> c < associativity s)"

text \<open>A line is stamped with a past, positive counter value exactly when it is valid.\<close>

definition line_ok :: "int \<Rightarrow> CacheLine \<Rightarrow> bool" where
  "line_ok now l \<longleftrightarrow>
     (if valid l then 1 \<le> last_used l \<and> last_used l \<le> now else last_used l = 0)"

definition times_ok :: "CacheSimulator \<Rightarrow> bool" where
  "times_ok s \<longleftrightarrow>
     0 \<le> access_counter s \<and>
     (\<forall>cs \<in> set (cache_array s). \<forall>l \<in> set cs. line_ok (access_counter s) l)"

text \<open>
  Way \<open>w\<close> is the first among the ways \<open>0 .. n-1\<close> of a set with the least \<open>last_used\<close>.
\<close>

definition first_least_recent :: "CacheLine list \<Rightarrow> nat \<Rightarrow> nat \<Rightarrow> bool" where
  "first_least_recent cs n w \<longleftrightarrow>
     w < n \<and> (\<forall>v < n. last_used (cs ! w) \<le> last_used (cs ! v)) \<and>
     (\<forall>v < w. last_used (cs ! w) < last_used (cs ! v))"

text \<open>
  Two simulators in step, the second one's counter \<open>d\<close> ahead: same geometry, policy and
  cursors, and the same lines but for the stamps of the valid ones, which are \<open>d\<close> later.
\<close>

definition shift_line :: "int \<Rightarrow> CacheLine \<Rightarrow> CacheLine" where
  "shift_line d l = (if valid l then l\<lparr>last_used := last_used l + d\<rparr> else l)"

definition in_step :: "int \<Rightarrow> CacheSimulator \<Rightarrow> CacheSimulator \<Rightarrow> bool" where
  "in_step d s t \<longleftrightarrow>
     0 \<le> d \<and> num_sets t = num_sets s \<and> associativity t = associativity s \<and>
     replacement_policy t = replacement_policy s \<and> fifo_idx t = fifo_idx s \<and>
     access_counter t = access_counter s + d \<and>
     cache_array t = map (map (shift_line d)) (cache_array s)"

section \<open>The built-ins\<close>

lemma upper_policy_names: "upper ''LRU'' = ''LRU''" "upper ''FIFO'' = ''FIFO''"
  by code_simp+

section \<open>Indexing and the two scans of a set\<close>

lemma py_index_in_range: "0 \<le> i \<Longrightarrow> i < int n \<Longrightarrow> py_index n i = Inr (nat i)"
  by (simp add: py_index_def)

lemma set_index_of_range:
  assumes "1 \<le> num_sets s"
  shows "0 \<le> set_index_of s a" and "set_index_of s a < num_sets s"
proof -
  have m: "0 \<le> num_sets s - 1" using assms by simp
  show "0 \<le> set_index_of s a"
    unfolding set_index_of_def using m by simp
  have "drop_bit 4 a AND (num_sets s - 1) \<le> num_sets s - 1"
    using m by (rule AND_upper2)
  then show "set_index_of s a < num_sets s"
    unfolding set_index_of_def by simp
qed

lemma find_hit_is_find:
  "\<forall>w \<in> set ws. w < length cs \<Longrightarrow>
   find_hit cs t ws = Inr (List.find (\<lambda>w. valid (cs ! w) \<and> tag (cs ! w) = t) ws)"
  by (induction ws) auto

lemma find_hit_range:
  assumes "n \<le> length cs"
  shows "find_hit cs t [0..<n] = Inr (List.find (\<lambda>w. valid (cs ! w) \<and> tag (cs ! w) = t) [0..<n])"
  using assms by (intro find_hit_is_find) auto

lemma find_upt_Some:
  "List.find P [0..<n] = Some w \<longleftrightarrow> w < n \<and> P w \<and> (\<forall>v < w. \<not> P v)"
  by (auto simp: find_Some_iff)

lemma find_upt_None: "List.find P [0..<n] = None \<longleftrightarrow> (\<forall>v < n. \<not> P v)"
  by (auto simp: find_None_iff)

lemma lru_scan_is_fold:
  "\<forall>w \<in> set ws. w < length cs \<Longrightarrow>
   lru_scan cs best ws =
     Inr (fold (\<lambda>w b. if last_used (cs ! w) < last_used (cs ! b) then w else b) ws best)"
  by (induction ws arbitrary: best) auto

lemma fold_first_least_recent:
  "first_least_recent cs (Suc n)
     (fold (\<lambda>w b. if last_used (cs ! w) < last_used (cs ! b) then w else b) [1..<Suc n] 0)"
proof (induction n)
  case 0
  show ?case by (simp add: first_least_recent_def)
next
  case (Suc n)
  define f where "f = (\<lambda>w b. if last_used (cs ! w) < last_used (cs ! b) then w else b)"
  define r where "r = fold f [1..<Suc n] 0"
  have "[1..<Suc (Suc n)] = [1..<Suc n] @ [Suc n]"
    by (rule upt_Suc_append) simp
  then have step: "fold f [1..<Suc (Suc n)] 0 = f (Suc n) r"
    by (simp only: fold_append r_def o_apply fold.simps id_apply)
  from Suc have r: "r < Suc n" "\<forall>v < Suc n. last_used (cs ! r) \<le> last_used (cs ! v)"
      "\<forall>v < r. last_used (cs ! r) < last_used (cs ! v)"
    unfolding first_least_recent_def r_def f_def by blast+
  have "first_least_recent cs (Suc (Suc n)) (f (Suc n) r)"
  proof (cases "last_used (cs ! Suc n) < last_used (cs ! r)")
    case True
    then have "\<forall>v < Suc n. last_used (cs ! Suc n) < last_used (cs ! v)"
      using r(2) by fastforce
    moreover have "f (Suc n) r = Suc n" using True by (simp add: f_def)
    ultimately show ?thesis
      by (auto simp: first_least_recent_def less_Suc_eq)
  next
    case False
    then have "f (Suc n) r = r" by (simp add: f_def)
    then show ?thesis
      using r False by (auto simp: first_least_recent_def less_Suc_eq)
  qed
  then have "first_least_recent cs (Suc (Suc n)) (fold f [1..<Suc (Suc n)] 0)"
    by (simp only: step)
  then show ?case by (simp only: f_def)
qed

lemma lru_min_first_least_recent:
  assumes "0 < n" "n \<le> length cs"
  shows "\<exists>w. lru_min cs n = Inr w \<and> first_least_recent cs n w"
proof -
  obtain m where n: "n = Suc m" using assms(1) by (cases n) auto
  have up: "[0..<n] = 0 # [1..<n]" using assms(1) by (simp add: upt_conv_Cons)
  have pos: "0 < length cs" using assms by linarith
  have "lru_min cs n = lru_scan cs 0 [1..<n]"
    using pos by (simp add: lru_min_def up)
  also have "\<dots> = Inr (fold (\<lambda>w b. if last_used (cs ! w) < last_used (cs ! b) then w else b) [1..<n] 0)"
    using assms by (intro lru_scan_is_fold) auto
  finally show ?thesis
    using fold_first_least_recent [of cs m] by (simp add: n)
qed

lemma first_least_recent_unique:
  "first_least_recent cs n w \<Longrightarrow> first_least_recent cs n v \<Longrightarrow> w = v"
  unfolding first_least_recent_def
  by (metis linorder_neqE_nat not_less)


section \<open>What construction returns\<close>

lemma quotient_positive:
  fixes x y z :: int
  assumes "x * y = z" "0 < z" "0 < y"
  shows "1 \<le> x"
proof -
  have "0 < x * y" using assms by simp
  then have "0 < x" using assms(3) by (simp add: zero_less_mult_iff)
  then show ?thesis by simp
qed

lemma CacheSimulator_init_Inr:
  assumes "CacheSimulator_init csz bsz assoc policy = Inr s"
  shows "0 < csz" "0 < bsz" "0 < assoc"
    "(csz div bsz) * bsz = csz" "(csz div bsz div assoc) * assoc = csz div bsz"
    "upper policy = ''FIFO'' \<or> upper policy = ''LRU''"
    "s = \<lparr>cache_size = csz, block_size = bsz, associativity = assoc,
          replacement_policy = upper policy, num_blocks = csz div bsz,
          num_sets = csz div bsz div assoc, access_counter = 0,
          cache_array = replicate (nat (csz div bsz div assoc))
                          (replicate (nat assoc) CacheLine_init),
          fifo_idx = replicate (nat (csz div bsz div assoc)) 0,
          stats = CacheStats_init\<rparr>"
  using assms
  by (auto simp: CacheSimulator_init_def Let_def split: if_splits)

lemma CacheSimulator_init_fields:
  assumes "CacheSimulator_init csz bsz assoc policy = Inr s"
  shows "associativity s = assoc" "num_sets s = csz div bsz div assoc"
    "access_counter s = 0" "stats s = CacheStats_init"
    "cache_array s = replicate (nat (num_sets s)) (replicate (nat assoc) CacheLine_init)"
    "fifo_idx s = replicate (nat (num_sets s)) 0"
    "replacement_policy s = ''FIFO'' \<or> replacement_policy s = ''LRU''"
    "1 \<le> num_sets s" "1 \<le> assoc"
proof -
  note i = CacheSimulator_init_Inr [OF assms]
  show "associativity s = assoc" "num_sets s = csz div bsz div assoc"
    "access_counter s = 0" "stats s = CacheStats_init"
    by (simp_all add: i(7))
  show "cache_array s = replicate (nat (num_sets s)) (replicate (nat assoc) CacheLine_init)"
    "fifo_idx s = replicate (nat (num_sets s)) 0"
    by (simp_all add: i(7))
  show "replacement_policy s = ''FIFO'' \<or> replacement_policy s = ''LRU''"
    using i(6) by (simp add: i(7))
  show "1 \<le> assoc" using i(3) by simp
  have "1 \<le> csz div bsz" using i(4) i(1) i(2) by (rule quotient_positive)
  then have "0 < csz div bsz" by simp
  with i(5) have "1 \<le> csz div bsz div assoc" using i(3) by (rule quotient_positive)
  then show "1 \<le> num_sets s" by (simp add: i(7))
qed

lemma CacheSimulator_init_shape:
  assumes "CacheSimulator_init csz bsz assoc policy = Inr s"
  shows "shape_ok s"
  using CacheSimulator_init_fields [OF assms]
  by (simp add: shape_ok_def)

lemma CacheSimulator_init_times:
  assumes "CacheSimulator_init csz bsz assoc policy = Inr s"
  shows "times_ok s"
  using CacheSimulator_init_fields [OF assms]
  by (simp add: times_ok_def line_ok_def CacheLine_init_def)

section \<open>The cases of one access\<close>

lemma access_cache_cases:
  fixes s :: CacheSimulator and a :: int
  defines "si \<equiv> nat (set_index_of s a)"
  defines "cs \<equiv> cache_array s ! si"
  defines "t \<equiv> tag_of s a"
  defines "n \<equiv> access_counter s + 1"
  assumes ok: "shape_ok s"
  obtains
    (Hit) w where "w < nat (associativity s)" "valid (cs ! w)" "tag (cs ! w) = t"
      "access_cache s a =
         Inr (\<lparr>hit = True, set_index = set_index_of s a, way = int w, evicted = None\<rparr>,
              s\<lparr>access_counter := n,
                cache_array := (cache_array s)[si := cs[w := (cs ! w)\<lparr>last_used := n\<rparr>]],
                stats := record_access (stats s) True\<rparr>)"
      "\<forall>v < w. \<not> (valid (cs ! v) \<and> tag (cs ! v) = t)"
  | (Miss) w where "w < nat (associativity s)"
      "\<forall>v < nat (associativity s). \<not> (valid (cs ! v) \<and> tag (cs ! v) = t)"
      "if replacement_policy s = ''FIFO'' then int w = fifo_idx s ! si
       else first_least_recent cs (nat (associativity s)) w"
      "access_cache s a =
         Inr (\<lparr>hit = False, set_index = set_index_of s a, way = int w,
               evicted = (if valid (cs ! w) then Some (tag (cs ! w)) else None)\<rparr>,
              s\<lparr>access_counter := n,
                cache_array := (cache_array s)[si := cs[w :=
                   \<lparr>valid = True, tag = t, last_used = n\<rparr>]],
                fifo_idx := (if replacement_policy s = ''FIFO''
                             then (fifo_idx s)[si := (fifo_idx s ! si + 1) mod associativity s]
                             else fifo_idx s),
                stats := record_access
                   (if valid (cs ! w) then record_eviction (stats s) else stats s) False\<rparr>)"
proof -
  let ?A = "nat (associativity s)"
  let ?P = "\<lambda>w. valid (cs ! w) \<and> tag (cs ! w) = t"
  from ok have ns: "1 \<le> num_sets s" and as: "1 \<le> associativity s"
    and lca: "length (cache_array s) = nat (num_sets s)"
    and lfi: "length (fifo_idx s) = nat (num_sets s)"
    by (simp_all add: shape_ok_def)
  have r: "0 \<le> set_index_of s a" "set_index_of s a < num_sets s"
    using set_index_of_range [OF ns] by simp_all
  then have si_lt: "si < nat (num_sets s)" by (simp add: si_def)
  have px: "py_index (nat (num_sets s)) (set_index_of s a) = Inr si"
    using r by (simp add: py_index_in_range si_def)
  have "cs \<in> set (cache_array s)"
    unfolding cs_def using si_lt lca by simp
  then have lcs: "length cs = ?A"
    using ok by (simp add: shape_ok_def)
  have fh: "find_hit cs t [0..<?A] = Inr (List.find ?P [0..<?A])"
    using lcs by (intro find_hit_range) simp
  have same: "set_index_of (s\<lparr>access_counter := n\<rparr>) a = set_index_of s a"
      "tag_of (s\<lparr>access_counter := n\<rparr>) a = t"
    by (simp_all add: set_index_of_def tag_of_def t_def)
  show thesis
  proof (cases "List.find ?P [0..<?A]")
    case (Some w)
    then have w: "w < ?A" "valid (cs ! w)" "tag (cs ! w) = t"
      by (simp_all add: find_upt_Some)
    show thesis
    proof (rule Hit [OF w])
      show "access_cache s a =
         Inr (\<lparr>hit = True, set_index = set_index_of s a, way = int w, evicted = None\<rparr>,
              s\<lparr>access_counter := n,
                cache_array := (cache_array s)[si := cs[w := (cs ! w)\<lparr>last_used := n\<rparr>]],
                stats := record_access (stats s) True\<rparr>)"
        using fh Some
        by (simp add: access_cache_def Let_def same lca px n_def [symmetric] cs_def [symmetric])
      show "\<forall>v < w. \<not> (valid (cs ! v) \<and> tag (cs ! v) = t)"
        using Some by (simp add: find_upt_Some)
    qed
  next
    case None
    then have nohit: "\<forall>v < ?A. \<not> ?P v"
      by (simp add: find_upt_None)
    show thesis
    proof (cases "replacement_policy s = ''FIFO''")
      case True
      define c where "c = fifo_idx s ! si"
      have "c \<in> set (fifo_idx s)"
        unfolding c_def using si_lt lfi by simp
      then have c: "0 \<le> c" "c < associativity s"
        using ok by (simp_all add: shape_ok_def)
      have pc: "py_index ?A c = Inr (nat c)"
        using c by (simp add: py_index_in_range)
      have sv: "select_victim (s\<lparr>access_counter := n\<rparr>) (set_index_of s a) cs =
          Inr (c, (fifo_idx s)[si := (c + 1) mod associativity s])"
        using True as by (simp add: select_victim_def lfi px c_def)
      show thesis
      proof (rule Miss [of "nat c"])
        show "nat c < ?A" using c by simp
        show "\<forall>v < ?A. \<not> ?P v" by (rule nohit)
        show "if replacement_policy s = ''FIFO'' then int (nat c) = fifo_idx s ! si
              else first_least_recent cs ?A (nat c)"
          using True c by (simp add: c_def)
        show "access_cache s a =
         Inr (\<lparr>hit = False, set_index = set_index_of s a, way = int (nat c),
               evicted = (if valid (cs ! nat c) then Some (tag (cs ! nat c)) else None)\<rparr>,
              s\<lparr>access_counter := n,
                cache_array := (cache_array s)[si := cs[nat c :=
                   \<lparr>valid = True, tag = t, last_used = n\<rparr>]],
                fifo_idx := (if replacement_policy s = ''FIFO''
                             then (fifo_idx s)[si := (fifo_idx s ! si + 1) mod associativity s]
                             else fifo_idx s),
                stats := record_access
                   (if valid (cs ! nat c) then record_eviction (stats s) else stats s) False\<rparr>)"
          using fh None True c
          by (simp add: access_cache_def Let_def same lca px n_def [symmetric]
              cs_def [symmetric] sv lcs pc c_def [symmetric])
      qed
    next
      case False
      have "0 < ?A" "?A \<le> length cs" using as lcs by simp_all
      then obtain w where w: "lru_min cs ?A = Inr w" "first_least_recent cs ?A w"
        using lru_min_first_least_recent by blast
      then have wlt: "w < ?A" by (simp add: first_least_recent_def)
      have pw: "py_index ?A (int w) = Inr w"
        using wlt by (auto simp: py_index_def)
      have sv: "select_victim (s\<lparr>access_counter := n\<rparr>) (set_index_of s a) cs =
          Inr (int w, fifo_idx s)"
        using False w(1) by (simp add: select_victim_def)
      show thesis
      proof (rule Miss [of w])
        show "w < ?A" by (rule wlt)
        show "\<forall>v < ?A. \<not> ?P v" by (rule nohit)
        show "if replacement_policy s = ''FIFO'' then int w = fifo_idx s ! si
              else first_least_recent cs ?A w"
          using False w(2) by simp
        show "access_cache s a =
         Inr (\<lparr>hit = False, set_index = set_index_of s a, way = int w,
               evicted = (if valid (cs ! w) then Some (tag (cs ! w)) else None)\<rparr>,
              s\<lparr>access_counter := n,
                cache_array := (cache_array s)[si := cs[w :=
                   \<lparr>valid = True, tag = t, last_used = n\<rparr>]],
                fifo_idx := (if replacement_policy s = ''FIFO''
                             then (fifo_idx s)[si := (fifo_idx s ! si + 1) mod associativity s]
                             else fifo_idx s),
                stats := record_access
                   (if valid (cs ! w) then record_eviction (stats s) else stats s) False\<rparr>)"
          using fh None False
          by (simp add: access_cache_def Let_def same lca px n_def [symmetric]
              cs_def [symmetric] sv lcs pw)
      qed
    qed
  qed
qed

section \<open>What one access does to a well-shaped simulator\<close>

lemma access_cache_result:
  fixes s :: CacheSimulator and a :: int
  defines "si \<equiv> nat (set_index_of s a)"
  defines "cs \<equiv> cache_array s ! si"
  defines "t \<equiv> tag_of s a"
  defines "n \<equiv> access_counter s + 1"
  assumes ok: "shape_ok s" and acc: "access_cache s a = Inr (out, s')"
  obtains
    (Hit) w where "w < nat (associativity s)" "valid (cs ! w)" "tag (cs ! w) = t"
      "out = \<lparr>hit = True, set_index = set_index_of s a, way = int w, evicted = None\<rparr>"
      "s' = s\<lparr>access_counter := n,
                cache_array := (cache_array s)[si := cs[w := (cs ! w)\<lparr>last_used := n\<rparr>]],
                stats := record_access (stats s) True\<rparr>"
      "\<forall>v < w. \<not> (valid (cs ! v) \<and> tag (cs ! v) = t)"
  | (Miss) w where "w < nat (associativity s)"
      "\<forall>v < nat (associativity s). \<not> (valid (cs ! v) \<and> tag (cs ! v) = t)"
      "if replacement_policy s = ''FIFO'' then int w = fifo_idx s ! si
       else first_least_recent cs (nat (associativity s)) w"
      "out = \<lparr>hit = False, set_index = set_index_of s a, way = int w,
               evicted = (if valid (cs ! w) then Some (tag (cs ! w)) else None)\<rparr>"
      "s' = s\<lparr>access_counter := n,
                cache_array := (cache_array s)[si := cs[w :=
                   \<lparr>valid = True, tag = t, last_used = n\<rparr>]],
                fifo_idx := (if replacement_policy s = ''FIFO''
                             then (fifo_idx s)[si := (fifo_idx s ! si + 1) mod associativity s]
                             else fifo_idx s),
                stats := record_access
                   (if valid (cs ! w) then record_eviction (stats s) else stats s) False\<rparr>"
  using ok
proof (cases rule: access_cache_cases [where a = a])
  case (Hit w)
  have "out = \<lparr>hit = True, set_index = set_index_of s a, way = int w, evicted = None\<rparr>"
    using Hit(4) acc by (metis Pair_inject sum.inject(2))
  moreover have "s' = s\<lparr>access_counter := n,
      cache_array := (cache_array s)[si := cs[w := (cs ! w)\<lparr>last_used := n\<rparr>]],
      stats := record_access (stats s) True\<rparr>"
    using Hit(4) acc unfolding si_def cs_def t_def n_def
    by (metis Pair_inject sum.inject(2))
  ultimately show thesis
    using Hit(5) [folded si_def cs_def t_def]
    by (rule that(1) [OF Hit(1-3) [folded si_def cs_def t_def]])
next
  case (Miss w)
  have "out = \<lparr>hit = False, set_index = set_index_of s a, way = int w,
      evicted = (if valid (cs ! w) then Some (tag (cs ! w)) else None)\<rparr>"
    using Miss(4) acc unfolding si_def cs_def t_def n_def
    by (metis Pair_inject sum.inject(2))
  moreover have "s' = s\<lparr>access_counter := n,
      cache_array := (cache_array s)[si := cs[w := \<lparr>valid = True, tag = t, last_used = n\<rparr>]],
      fifo_idx := (if replacement_policy s = ''FIFO''
                   then (fifo_idx s)[si := (fifo_idx s ! si + 1) mod associativity s]
                   else fifo_idx s),
      stats := record_access
         (if valid (cs ! w) then record_eviction (stats s) else stats s) False\<rparr>"
    using Miss(4) acc unfolding si_def cs_def t_def n_def
    by (metis Pair_inject sum.inject(2))
  ultimately show thesis
    by (rule that(2) [OF Miss(1-3) [folded si_def cs_def t_def]])
qed





lemma access_cache_total:
  assumes "shape_ok s"
  shows "\<exists>out s'. access_cache s a = Inr (out, s')"
  using assms by (cases rule: access_cache_cases [where a = a]) blast+

lemma in_set_update:
  assumes "xs \<in> set (ca[i := y])"
  shows "xs \<in> set ca \<or> xs = y"
proof -
  have "set (ca[i := y]) \<subseteq> insert y (set ca)" by (rule set_update_subset_insert)
  with assms show ?thesis by blast
qed

lemma fifo_step_in_range:
  fixes s :: CacheSimulator
  assumes as: "1 \<le> associativity s"
    and cur: "\<forall>c \<in> set (fifo_idx s). 0 \<le> c \<and> c < associativity s"
  shows "\<forall>c \<in> set ((fifo_idx s)[si := (fifo_idx s ! si + 1) mod associativity s]).
      0 \<le> c \<and> c < associativity s"
proof
  fix c assume "c \<in> set ((fifo_idx s)[si := (fifo_idx s ! si + 1) mod associativity s])"
  then have "c \<in> set (fifo_idx s) \<or> c = (fifo_idx s ! si + 1) mod associativity s"
    by (rule in_set_update)
  moreover have "(fifo_idx s ! si + 1) mod associativity s \<ge> 0"
      "(fifo_idx s ! si + 1) mod associativity s < associativity s"
    using as by simp_all
  ultimately show "0 \<le> c \<and> c < associativity s" using cur by auto
qed

lemma access_cache_frame:
  assumes ok: "shape_ok s" and acc: "access_cache s a = Inr (out, s')"
  shows "num_sets s' = num_sets s" "associativity s' = associativity s"
    "replacement_policy s' = replacement_policy s"
    "access_counter s' = access_counter s + 1"
    "\<exists>w l. valid l \<and> last_used l = access_counter s + 1 \<and> cache_array s' =
       (cache_array s)[nat (set_index_of s a) := (cache_array s ! nat (set_index_of s a))[w := l]]"
    "fifo_idx s' = fifo_idx s \<or>
     fifo_idx s' = (fifo_idx s)[nat (set_index_of s a) :=
        (fifo_idx s ! nat (set_index_of s a) + 1) mod associativity s]"
proof -
  show "num_sets s' = num_sets s"
    using ok acc by (cases rule: access_cache_result) simp_all
  show "associativity s' = associativity s"
    using ok acc by (cases rule: access_cache_result) simp_all
  show "replacement_policy s' = replacement_policy s"
    using ok acc by (cases rule: access_cache_result) simp_all
  show "access_counter s' = access_counter s + 1"
    using ok acc by (cases rule: access_cache_result) simp_all
  show "\<exists>w l. valid l \<and> last_used l = access_counter s + 1 \<and> cache_array s' =
       (cache_array s)[nat (set_index_of s a) := (cache_array s ! nat (set_index_of s a))[w := l]]"
    using ok acc
  proof (cases rule: access_cache_result)
    case (Hit w)
    let ?l = "(cache_array s ! nat (set_index_of s a) ! w)\<lparr>last_used := access_counter s + 1\<rparr>"
    have "cache_array s' = (cache_array s)[nat (set_index_of s a) :=
        (cache_array s ! nat (set_index_of s a))[w := ?l]]"
      by (simp add: Hit(5))
    moreover have "valid ?l" "last_used ?l = access_counter s + 1"
      using Hit(2) by simp_all
    ultimately show ?thesis by blast
  next
    case (Miss w)
    let ?l = "\<lparr>valid = True, tag = tag_of s a, last_used = access_counter s + 1\<rparr>"
    have "cache_array s' = (cache_array s)[nat (set_index_of s a) :=
        (cache_array s ! nat (set_index_of s a))[w := ?l]]"
      by (simp add: Miss(5))
    moreover have "valid ?l" "last_used ?l = access_counter s + 1"
      by simp_all
    ultimately show ?thesis by blast
  qed
  show "fifo_idx s' = fifo_idx s \<or>
     fifo_idx s' = (fifo_idx s)[nat (set_index_of s a) :=
        (fifo_idx s ! nat (set_index_of s a) + 1) mod associativity s]"
    using ok acc by (cases rule: access_cache_result) simp_all
qed

lemma access_cache_shape:
  assumes ok: "shape_ok s" and acc: "access_cache s a = Inr (out, s')"
  shows "shape_ok s'"
proof -
  let ?si = "nat (set_index_of s a)"
  note fr = access_cache_frame [OF ok acc]
  from ok have ns: "1 \<le> num_sets s" and lca: "length (cache_array s) = nat (num_sets s)"
    and lfi: "length (fifo_idx s) = nat (num_sets s)"
    and as: "1 \<le> associativity s"
    and cur: "\<forall>c \<in> set (fifo_idx s). 0 \<le> c \<and> c < associativity s"
    and lens: "\<forall>cs \<in> set (cache_array s). length cs = nat (associativity s)"
    by (simp_all add: shape_ok_def)
  have si: "?si < length (cache_array s)"
    using set_index_of_range [OF ns, of a] lca by simp
  then have here: "length (cache_array s ! ?si) = nat (associativity s)"
    using lens by simp
  from fr(5) obtain w l where
    ca: "cache_array s' = (cache_array s)[?si := (cache_array s ! ?si)[w := l]]"
    by blast
  have l1: "length (cache_array s') = nat (num_sets s')"
    by (simp add: ca lca fr(1))
  have l2: "\<forall>cs \<in> set (cache_array s'). length cs = nat (associativity s')"
  proof
    fix cs assume "cs \<in> set (cache_array s')"
    then have "cs \<in> set (cache_array s) \<or> cs = (cache_array s ! ?si)[w := l]"
      unfolding ca by (rule in_set_update)
    then show "length cs = nat (associativity s')"
    proof
      assume "cs \<in> set (cache_array s)"
      then show ?thesis using lens by (simp add: fr(2))
    next
      assume "cs = (cache_array s ! ?si)[w := l]"
      then show ?thesis using here by (simp add: fr(2))
    qed
  qed
  have l3: "length (fifo_idx s') = nat (num_sets s')"
    using fr(6) lfi by (auto simp: fr(1))
  have l4: "\<forall>c \<in> set (fifo_idx s'). 0 \<le> c \<and> c < associativity s'"
    using fr(6)
  proof
    assume "fifo_idx s' = fifo_idx s"
    then show ?thesis using cur by (simp only: fr(2))
  next
    assume "fifo_idx s' = (fifo_idx s)[?si := (fifo_idx s ! ?si + 1) mod associativity s]"
    then show ?thesis using fifo_step_in_range [OF as cur, of ?si] by (simp only: fr(2))
  qed
  have "1 \<le> num_sets s'" "1 \<le> associativity s'"
    using ns as by (simp_all only: fr(1,2))
  then show "shape_ok s'"
    unfolding shape_ok_def using l1 l2 l3 l4 by blast
qed


lemma line_ok_later: "line_ok now l \<Longrightarrow> now \<le> now' \<Longrightarrow> line_ok now' l"
  by (auto simp: line_ok_def split: if_splits)

lemma access_cache_times:
  assumes ok: "shape_ok s" and tm: "times_ok s" and acc: "access_cache s a = Inr (out, s')"
  shows "times_ok s'"
proof -
  let ?si = "nat (set_index_of s a)"
  let ?n = "access_counter s + 1"
  note fr = access_cache_frame [OF ok acc]
  from ok have ns: "1 \<le> num_sets s" and lca: "length (cache_array s) = nat (num_sets s)"
    by (simp_all add: shape_ok_def)
  from tm have c0: "0 \<le> access_counter s"
    and old: "\<forall>cs \<in> set (cache_array s). \<forall>l \<in> set cs. line_ok (access_counter s) l"
    by (simp_all add: times_ok_def)
  have si: "?si < length (cache_array s)"
    using set_index_of_range [OF ns, of a] lca by simp
  then have here: "cache_array s ! ?si \<in> set (cache_array s)" by simp
  from fr(5) obtain w l where l: "valid l" "last_used l = ?n"
    and ca: "cache_array s' = (cache_array s)[?si := (cache_array s ! ?si)[w := l]]"
    by blast
  have new: "line_ok ?n l"
    using l c0 by (simp add: line_ok_def)
  have keep: "line_ok ?n x" if "cs \<in> set (cache_array s)" "x \<in> set cs" for cs x
  proof -
    have "line_ok (access_counter s) x" using old that by blast
    then show ?thesis by (rule line_ok_later) simp
  qed
  have "\<forall>cs \<in> set (cache_array s'). \<forall>x \<in> set cs. line_ok (access_counter s') x"
  proof (intro ballI)
    fix cs x
    assume cs: "cs \<in> set (cache_array s')" and x: "x \<in> set cs"
    from cs have "cs \<in> set (cache_array s) \<or> cs = (cache_array s ! ?si)[w := l]"
      unfolding ca by (rule in_set_update)
    then have "line_ok ?n x"
    proof
      assume "cs \<in> set (cache_array s)"
      then show ?thesis using x by (rule keep)
    next
      assume "cs = (cache_array s ! ?si)[w := l]"
      then have "x \<in> set ((cache_array s ! ?si)[w := l])" using x by simp
      then have "x \<in> set (cache_array s ! ?si) \<or> x = l" by (rule in_set_update)
      then show ?thesis using keep [OF here] new by blast
    qed
    then show "line_ok (access_counter s') x" by (simp only: fr(4))
  qed
  moreover have "0 \<le> access_counter s'" using c0 by (simp add: fr(4))
  ultimately show ?thesis unfolding times_ok_def by blast
qed

lemma access_cache_outcome:
  assumes ok: "shape_ok s" and acc: "access_cache s a = Inr (out, s')"
  shows "stats s' = record_access
           (if evicted out = None then stats s else record_eviction (stats s)) (hit out)"
    and "hit out \<Longrightarrow> evicted out = None"
    and "set_index out = set_index_of s a"
    and "0 \<le> set_index out" "set_index out < num_sets s"
    and "0 \<le> way out" "way out < associativity s"
proof -
  from ok have ns: "1 \<le> num_sets s" by (simp add: shape_ok_def)
  show "stats s' = record_access
           (if evicted out = None then stats s else record_eviction (stats s)) (hit out)"
    using ok acc by (cases rule: access_cache_result) simp_all
  show "hit out \<Longrightarrow> evicted out = None"
    using ok acc by (cases rule: access_cache_result) simp_all
  show si: "set_index out = set_index_of s a"
    using ok acc by (cases rule: access_cache_result) simp_all
  show "0 \<le> set_index out" "set_index out < num_sets s"
    using set_index_of_range [OF ns, of a] by (simp_all only: si)
  show "0 \<le> way out"
    using ok acc by (cases rule: access_cache_result) simp_all
  show "way out < associativity s"
    using ok acc
  proof (cases rule: access_cache_result)
    case (Hit w)
    have "int w < associativity s" using Hit(1) by linarith
    then show ?thesis by (simp add: Hit(4))
  next
    case (Miss w)
    have "int w < associativity s" using Miss(1) by linarith
    then show ?thesis by (simp add: Miss(4))
  qed
qed

section \<open>Reset, and runs over a trace\<close>

lemma map_upt_const:
  "\<forall>i < n. f i = x \<Longrightarrow> map f [0..<n] = replicate n x"
  by (simp add: list_eq_iff_nth_eq)

lemma reset_line:
  fixes l :: CacheLine
  shows "l\<lparr>valid := False, tag := 0, last_used := 0\<rparr> = CacheLine_init"
  by (cases l) (simp add: CacheLine_init_def)

lemma reset_ways_result:
  "\<forall>w \<in> set ws. w < length cs \<Longrightarrow>
   reset_ways cs ws =
     Inr (map (\<lambda>i. if i \<in> set ws then CacheLine_init else cs ! i) [0..<length cs])"
proof (induction ws arbitrary: cs)
  case Nil
  show ?case by (simp add: map_nth)
next
  case (Cons w ws)
  let ?cs = "cs[w := CacheLine_init]"
  have "\<forall>v \<in> set ws. v < length ?cs" using Cons.prems by simp
  then have "reset_ways ?cs ws =
      Inr (map (\<lambda>i. if i \<in> set ws then CacheLine_init else ?cs ! i) [0..<length ?cs])"
    by (rule Cons.IH)
  moreover have "map (\<lambda>i. if i \<in> set ws then CacheLine_init else ?cs ! i) [0..<length ?cs] =
      map (\<lambda>i. if i \<in> set (w # ws) then CacheLine_init else cs ! i) [0..<length cs]"
    by (simp add: nth_list_update)
  moreover have "w < length cs" using Cons.prems by simp
  ultimately show ?case by (simp add: reset_line)
qed

lemma reset_ways_all:
  "reset_ways cs [0..<length cs] = Inr (replicate (length cs) CacheLine_init)"
proof -
  have "reset_ways cs [0..<length cs] =
      Inr (map (\<lambda>i. if i \<in> set [0..<length cs] then CacheLine_init else cs ! i)
             [0..<length cs])"
    by (rule reset_ways_result) simp
  also have "map (\<lambda>i. if i \<in> set [0..<length cs] then CacheLine_init else cs ! i)
      [0..<length cs] = map (\<lambda>i. CacheLine_init) [0..<length cs]"
    by simp
  also have "\<dots> = replicate (length cs) CacheLine_init"
    by (simp add: map_replicate_const)
  finally show ?thesis .
qed

lemma reset_sets_result:
  assumes "\<forall>cs \<in> set ca. length cs = a" "\<forall>i \<in> set is. i < length ca \<and> i < length fi"
  shows "reset_sets ca fi a is =
     Inr (map (\<lambda>i. if i \<in> set is then replicate a CacheLine_init else ca ! i) [0..<length ca],
          map (\<lambda>i. if i \<in> set is then 0 else fi ! i) [0..<length fi])"
  using assms
proof (induction "is" arbitrary: ca fi)
  case Nil
  show ?case by (simp add: map_nth)
next
  case (Cons i "is")
  let ?ca = "ca[i := replicate a CacheLine_init]"
  let ?fi = "fi[i := 0]"
  from Cons.prems have i: "i < length ca" "i < length fi" by simp_all
  then have "ca ! i \<in> set ca" by simp
  then have len: "length (ca ! i) = a" using Cons.prems(1) by blast
  have ways: "reset_ways (ca ! i) [0..<a] = Inr (replicate a CacheLine_init)"
    using reset_ways_all [of "ca ! i"] by (simp only: len)
  have inv: "\<forall>cs \<in> set ?ca. length cs = a"
  proof
    fix cs assume "cs \<in> set ?ca"
    then have "cs \<in> set ca \<or> cs = replicate a CacheLine_init" by (rule in_set_update)
    then show "length cs = a" using Cons.prems(1) by auto
  qed
  have rng: "\<forall>j \<in> set is. j < length ?ca \<and> j < length ?fi"
    using Cons.prems(2) by simp
  have "reset_sets ca fi a (i # is) = reset_sets ?ca ?fi a is"
    using i ways by simp
  also have "\<dots> =
     Inr (map (\<lambda>j. if j \<in> set is then replicate a CacheLine_init else ?ca ! j) [0..<length ?ca],
          map (\<lambda>j. if j \<in> set is then 0 else ?fi ! j) [0..<length ?fi])"
    using inv rng by (rule Cons.IH)
  also have "map (\<lambda>j. if j \<in> set is then replicate a CacheLine_init else ?ca ! j)
       [0..<length ?ca] =
     map (\<lambda>j. if j \<in> set (i # is) then replicate a CacheLine_init else ca ! j) [0..<length ca]"
    by (simp add: nth_list_update)
  also have "map (\<lambda>j. if j \<in> set is then 0 else ?fi ! j) [0..<length ?fi] =
     map (\<lambda>j. if j \<in> set (i # is) then 0 else fi ! j) [0..<length fi]"
    by (simp add: nth_list_update)
  finally show ?case .
qed

lemma init_cache_shape:
  assumes ok: "shape_ok s"
  shows "init_cache s =
     Inr (s\<lparr>cache_array := replicate (nat (num_sets s))
                               (replicate (nat (associativity s)) CacheLine_init),
            fifo_idx := replicate (nat (num_sets s)) 0\<rparr>)"
proof -
  let ?n = "nat (num_sets s)" and ?a = "nat (associativity s)"
  from ok have lca: "length (cache_array s) = ?n" and lfi: "length (fifo_idx s) = ?n"
    and lens: "\<forall>cs \<in> set (cache_array s). length cs = ?a"
    by (simp_all add: shape_ok_def)
  have rng: "\<forall>i \<in> set [0..<?n]. i < length (cache_array s) \<and> i < length (fifo_idx s)"
    by (simp add: lca lfi)
  have "reset_sets (cache_array s) (fifo_idx s) ?a [0..<?n] =
     Inr (map (\<lambda>i. if i \<in> set [0..<?n] then replicate ?a CacheLine_init
                    else cache_array s ! i) [0..<length (cache_array s)],
          map (\<lambda>i. if i \<in> set [0..<?n] then 0 else fifo_idx s ! i)
            [0..<length (fifo_idx s)])"
    using lens rng by (rule reset_sets_result)
  also have "map (\<lambda>i. if i \<in> set [0..<?n] then replicate ?a CacheLine_init
                    else cache_array s ! i) [0..<length (cache_array s)] =
      replicate ?n (replicate ?a CacheLine_init)"
    unfolding lca by (rule map_upt_const) simp
  also have "map (\<lambda>i. if i \<in> set [0..<?n] then 0 else fifo_idx s ! i)
            [0..<length (fifo_idx s)] = replicate ?n 0"
    unfolding lfi by (rule map_upt_const) simp
  finally show ?thesis by (simp add: init_cache_def)
qed

lemma init_cache_keeps_shape:
  assumes ok: "shape_ok s" and i: "init_cache s = Inr s'"
  shows "shape_ok s'" "times_ok s \<Longrightarrow> times_ok s'"
proof -
  have s': "s' = s\<lparr>cache_array := replicate (nat (num_sets s))
                               (replicate (nat (associativity s)) CacheLine_init),
            fifo_idx := replicate (nat (num_sets s)) 0\<rparr>"
    using i by (simp add: init_cache_shape [OF ok])
  from ok have "1 \<le> num_sets s" "1 \<le> associativity s" by (simp_all add: shape_ok_def)
  then show "shape_ok s'" by (simp add: s' shape_ok_def)
  show "times_ok s \<Longrightarrow> times_ok s'"
    by (simp add: s' times_ok_def line_ok_def CacheLine_init_def)
qed

lemma reachable_invariants:
  assumes "reachable s"
  shows "shape_ok s \<and> times_ok s"
  using assms
proof (induction rule: reachable.induct)
  case (constructed csz bsz assoc policy s)
  then show ?case
    using CacheSimulator_init_shape CacheSimulator_init_times by blast
next
  case (accessed s address out s')
  then show ?case
    using access_cache_shape access_cache_times by blast
next
  case (reinitialised s s')
  then show ?case
    using init_cache_keeps_shape by blast
qed

lemma run_trace_Cons:
  assumes "run_trace s (a # tr) = Inr (outs, s'')"
  obtains out s' outs' where "access_cache s a = Inr (out, s')"
    "run_trace s' tr = Inr (outs', s'')" "outs = out # outs'"
  using assms by (auto split: sum.splits prod.splits)

lemma run_trace_total:
  "shape_ok s \<Longrightarrow> \<exists>outs s'. run_trace s tr = Inr (outs, s')"
proof (induction tr arbitrary: s)
  case Nil
  show ?case by simp
next
  case (Cons a tr)
  from access_cache_total [OF Cons.prems, of a] obtain out s1
    where a: "access_cache s a = Inr (out, s1)" by blast
  then have "shape_ok s1" using Cons.prems access_cache_shape by blast
  then obtain outs s2 where "run_trace s1 tr = Inr (outs, s2)"
    using Cons.IH by blast
  then show ?case using a by simp
qed

lemma run_trace_invariants:
  assumes "shape_ok s" "run_trace s tr = Inr (outs, s')"
  shows "shape_ok s'" "num_sets s' = num_sets s" "associativity s' = associativity s"
    "replacement_policy s' = replacement_policy s" "length outs = length tr"
    "access_counter s' = access_counter s + int (length tr)"
proof -
  have "shape_ok s' \<and> num_sets s' = num_sets s \<and> associativity s' = associativity s \<and>
    replacement_policy s' = replacement_policy s \<and> length outs = length tr \<and>
    access_counter s' = access_counter s + int (length tr)"
    using assms
  proof (induction tr arbitrary: s outs)
    case Nil
    then show ?case by simp
  next
    case (Cons a tr)
    from Cons.prems(2) obtain out s1 outs1 where st: "access_cache s a = Inr (out, s1)"
      "run_trace s1 tr = Inr (outs1, s')" "outs = out # outs1"
      by (rule run_trace_Cons)
    note fr = access_cache_frame [OF Cons.prems(1) st(1)]
    have ok1: "shape_ok s1" using Cons.prems(1) st(1) by (rule access_cache_shape)
    from Cons.IH [OF ok1 st(2)] show ?case
      by (simp add: fr(1-4) st(3))
  qed
  then show "shape_ok s'" "num_sets s' = num_sets s" "associativity s' = associativity s"
    "replacement_policy s' = replacement_policy s" "length outs = length tr"
    "access_counter s' = access_counter s + int (length tr)"
    by simp_all
qed

lemma run_trace_times:
  assumes "shape_ok s" "times_ok s" "run_trace s tr = Inr (outs, s')"
  shows "times_ok s'"
  using assms
proof (induction tr arbitrary: s outs)
  case Nil
  then show ?case by simp
next
  case (Cons a tr)
  from Cons.prems(3) obtain out s1 outs1 where st: "access_cache s a = Inr (out, s1)"
    "run_trace s1 tr = Inr (outs1, s')" "outs = out # outs1"
    by (rule run_trace_Cons)
  have "shape_ok s1" using Cons.prems(1) st(1) by (rule access_cache_shape)
  moreover have "times_ok s1" using Cons.prems(1,2) st(1) by (rule access_cache_times)
  ultimately show ?case using st(2) by (rule Cons.IH)
qed

section \<open>Rounding to a double\<close>









section \<open>The statistics along a run\<close>

lemma record_access_fields:
  "total_accesses (record_access st h) = total_accesses st + 1"
  "hits (record_access st h) = hits st + (if h then 1 else 0)"
  "misses (record_access st h) = misses st + (if h then 0 else 1)"
  "evictions (record_access st h) = evictions st"
  "hit_rate_history (record_access st h) = hit_rate_history st @
     [if total_accesses st + 1 > 0
      then double_value (float_mul_int
             (py_truediv (hits st + (if h then 1 else 0)) (total_accesses st + 1)) 100)
      else 0]"
  by (simp_all add: record_access_def Let_def)

lemma record_eviction_fields:
  "total_accesses (record_eviction st) = total_accesses st"
  "hits (record_eviction st) = hits st"
  "misses (record_eviction st) = misses st"
  "evictions (record_eviction st) = evictions st + 1"
  "hit_rate_history (record_eviction st) = hit_rate_history st"
  by (simp_all add: record_eviction_def)

lemma access_cache_counters:
  assumes ok: "shape_ok s" and acc: "access_cache s a = Inr (out, s')"
  shows "total_accesses (stats s') = total_accesses (stats s) + 1"
    "hits (stats s') = hits (stats s) + (if hit out then 1 else 0)"
    "misses (stats s') = misses (stats s) + (if hit out then 0 else 1)"
    "evictions (stats s') = evictions (stats s) + (if evicted out = None then 0 else 1)"
    "hit_rate_history (stats s') = hit_rate_history (stats s) @
       [if total_accesses (stats s) + 1 > 0
        then double_value (float_mul_int
               (py_truediv (hits (stats s) + (if hit out then 1 else 0))
                  (total_accesses (stats s) + 1)) 100)
        else 0]"
proof -
  note st = access_cache_outcome(1) [OF ok acc]
  show "total_accesses (stats s') = total_accesses (stats s) + 1"
    by (simp add: st record_access_fields record_eviction_fields)
  show "hits (stats s') = hits (stats s) + (if hit out then 1 else 0)"
    by (simp add: st record_access_fields record_eviction_fields)
  show "misses (stats s') = misses (stats s) + (if hit out then 0 else 1)"
    by (simp add: st record_access_fields record_eviction_fields)
  show "evictions (stats s') = evictions (stats s) + (if evicted out = None then 0 else 1)"
    by (simp add: st record_access_fields record_eviction_fields)
  show "hit_rate_history (stats s') = hit_rate_history (stats s) @
       [if total_accesses (stats s) + 1 > 0
        then double_value (float_mul_int
               (py_truediv (hits (stats s) + (if hit out then 1 else 0))
                  (total_accesses (stats s) + 1)) 100)
        else 0]"
    by (simp add: st record_access_fields record_eviction_fields)
qed

lemma run_trace_counters:
  assumes "shape_ok s" "run_trace s tr = Inr (outs, s')"
  shows "total_accesses (stats s') = total_accesses (stats s) + int (length outs) \<and>
    hits (stats s') = hits (stats s) + int (length (filter hit outs)) \<and>
    misses (stats s') = misses (stats s) + int (length (filter (\<lambda>out. \<not> hit out) outs)) \<and>
    evictions (stats s') =
      evictions (stats s) + int (length (filter (\<lambda>out. evicted out \<noteq> None) outs)) \<and>
    list_all (\<lambda>out. evicted out \<noteq> None \<longrightarrow> \<not> hit out) outs"
  using assms
proof (induction tr arbitrary: s outs)
  case Nil
  then show ?case by simp
next
  case (Cons a tr)
  from Cons.prems(2) obtain out s1 outs1 where st: "access_cache s a = Inr (out, s1)"
    "run_trace s1 tr = Inr (outs1, s')" "outs = out # outs1"
    by (rule run_trace_Cons)
  note c = access_cache_counters [OF Cons.prems(1) st(1)]
  note o = access_cache_outcome(2) [OF Cons.prems(1) st(1)]
  have ok1: "shape_ok s1" using Cons.prems(1) st(1) by (rule access_cache_shape)
  from Cons.IH [OF ok1 st(2)] o show ?case
    by (simp add: c(1-4) st(3))
qed


lemma small_cache_constructed:
  "\<exists>s. CacheSimulator_init 32 16 2 ''LRU'' = Inr s"
  by (simp add: CacheSimulator_init_def upper_policy_names)

lemma length_filter_mono:
  "\<forall>x \<in> set xs. P x \<longrightarrow> Q x \<Longrightarrow> length (filter P xs) \<le> length (filter Q xs)"
  by (induction xs) auto

section \<open>The default run\<close>

lemma default_trace_lru_run:
  "report (simulate 1024 16 2 ''LRU''
     [0xA3C4, 0xA3D0, 0xA3C4, 0xA3D0, 0xB3C4, 0xC3C4, 0xA3C4, 0xD3C4]) =
   Inr ([False, False, True, True, False, False, False, False], 3)"
  by code_simp

text \<open>
  C1 (as amended). With the default geometry (1024 bytes, blocks of 16, 2 ways) and LRU,
  the default trace 0xA3C4, 0xA3D0, 0xA3C4, 0xA3D0, 0xB3C4, 0xC3C4, 0xA3C4, 0xD3C4 gives
  miss, miss, hit, hit, miss, miss, miss, miss and ends with 3 evictions: the sixth
  access (0xC3C4) evicts the block of 0xA3C4, the least recently used of set 28, so the
  seventh access misses and evicts in turn, as does the eighth.
\<close>

theorem default_trace_lru_outcomes:
  "report (simulate DEFAULT_CACHE_SIZE DEFAULT_BLOCK_SIZE DEFAULT_ASSOCIATIVITY ''LRU''
     default_trace) =
   Inr ([False, False, True, True, False, False, False, False], 3)"
  unfolding DEFAULT_CACHE_SIZE_def DEFAULT_BLOCK_SIZE_def DEFAULT_ASSOCIATIVITY_def
    default_trace_def
  by (rule default_trace_lru_run)

text \<open>
  C1 as the specification states it (the seventh access a hit, 2 evictions) does not
  hold of this run.
\<close>

theorem default_trace_lru_not_as_specified:
  "report (simulate DEFAULT_CACHE_SIZE DEFAULT_BLOCK_SIZE DEFAULT_ASSOCIATIVITY ''LRU''
     default_trace) \<noteq>
   Inr ([False, False, True, True, False, False, True, False], 2)"
  unfolding DEFAULT_CACHE_SIZE_def DEFAULT_BLOCK_SIZE_def DEFAULT_ASSOCIATIVITY_def
    default_trace_def
  by (simp add: default_trace_lru_run)

section \<open>Reset, capacity and statistics\<close>

text \<open>
  C7. On a simulator object (any state reached from construction by accesses and
  resets), \<open>init_cache\<close> returns the same object with every line of every set put back to
  invalid, tag 0, \<open>last_used\<close> 0 and every FIFO cursor to 0; every other field, the access
  counter and the statistics among them, is as before.
\<close>

theorem init_cache_resets_lines_and_cursors_only:
  assumes "reachable s"
  shows "init_cache s =
     Inr (s\<lparr>cache_array := replicate (nat (num_sets s))
                               (replicate (nat (associativity s)) CacheLine_init),
            fifo_idx := replicate (nat (num_sets s)) 0\<rparr>)"
proof -
  from assms have "shape_ok s" by (simp add: reachable_invariants)
  then show ?thesis by (rule init_cache_shape)
qed

theorem init_cache_resets_lines_and_cursors_only_witness:
  "\<exists>s0 out s s'. CacheSimulator_init 32 16 2 ''LRU'' = Inr s0 \<and>
     access_cache s0 0x1234 = Inr (out, s) \<and> reachable s \<and> init_cache s = Inr s' \<and>
     cache_array s' = [[CacheLine_init, CacheLine_init]] \<and> fifo_idx s' = [0] \<and>
     access_counter s' = 1 \<and> stats s' = stats s \<and> total_accesses (stats s') = 1"
proof -
  obtain s0 where s0: "CacheSimulator_init 32 16 2 ''LRU'' = Inr s0"
    using small_cache_constructed by blast
  have ok: "shape_ok s0" using s0 by (rule CacheSimulator_init_shape)
  obtain out s where a: "access_cache s0 0x1234 = Inr (out, s)"
    using access_cache_total [OF ok] by blast
  have r: "reachable s"
    using s0 a by (blast intro: reachable.intros)
  note f = CacheSimulator_init_fields [OF s0]
  note fr = access_cache_frame [OF ok a]
  note c = access_cache_counters [OF ok a]
  have n: "num_sets s = 1" "associativity s = 2" "access_counter s = 1"
    "total_accesses (stats s) = 1"
    by (simp_all add: fr f c CacheStats_init_def)
  let ?s' = "s\<lparr>cache_array := replicate (nat (num_sets s))
                               (replicate (nat (associativity s)) CacheLine_init),
            fifo_idx := replicate (nat (num_sets s)) 0\<rparr>"
  have i: "init_cache s = Inr ?s'"
    using r by (rule init_cache_resets_lines_and_cursors_only)
  have "cache_array ?s' = [[CacheLine_init, CacheLine_init]]" "fifo_idx ?s' = [0]"
    "access_counter ?s' = 1" "stats ?s' = stats s" "total_accesses (stats ?s') = 1"
    by (simp_all add: n numeral_2_eq_2)
  with s0 a r i show ?thesis by blast
qed

text \<open>
  C8. After any finite sequence of accesses on a freshly constructed cache, every set
  holds at most \<open>associativity\<close> valid lines.
\<close>

theorem capacity_invariant:
  assumes "CacheSimulator_init csz bsz assoc policy = Inr s0"
    and "run_trace s0 trace = Inr (outs, s)"
  shows "\<forall>cs \<in> set (cache_array s). length (filter valid cs) \<le> nat assoc"
proof
  fix cs assume cs: "cs \<in> set (cache_array s)"
  have ok0: "shape_ok s0" using assms(1) by (rule CacheSimulator_init_shape)
  note inv = run_trace_invariants [OF ok0 assms(2)]
  have "associativity s = assoc"
    using inv(3) CacheSimulator_init_fields(1) [OF assms(1)] by simp
  moreover have "length cs = nat (associativity s)"
    using inv(1) cs by (simp add: shape_ok_def)
  moreover have "length (filter valid cs) \<le> length cs" by (rule length_filter_le)
  ultimately show "length (filter valid cs) \<le> nat assoc" by simp
qed

theorem capacity_invariant_witness:
  "\<exists>s0 outs s. CacheSimulator_init 32 16 2 ''LRU'' = Inr s0 \<and>
     run_trace s0 [0x000, 0x200, 0x400, 0x000] = Inr (outs, s) \<and>
     list_all (\<lambda>cs. length (filter valid cs) \<le> 2) (cache_array s)"
proof -
  obtain s0 where s0: "CacheSimulator_init 32 16 2 ''LRU'' = Inr s0"
    using small_cache_constructed by blast
  have ok: "shape_ok s0" using s0 by (rule CacheSimulator_init_shape)
  obtain outs s where r: "run_trace s0 [0x000, 0x200, 0x400, 0x000] = Inr (outs, s)"
    using run_trace_total [OF ok] by blast
  have "\<forall>cs \<in> set (cache_array s). length (filter valid cs) \<le> nat 2"
    using s0 r by (rule capacity_invariant)
  then have "list_all (\<lambda>cs. length (filter valid cs) \<le> 2) (cache_array s)"
    by (simp add: list_all_iff)
  with s0 r show ?thesis by blast
qed







lemma access_cache_eviction:
  assumes ok: "shape_ok s" and acc: "access_cache s a = Inr (out, s')"
  shows "evictions (stats s') = evictions (stats s) +
      (if \<not> hit out \<and> valid (cache_array s ! nat (set_index out) ! nat (way out))
       then 1 else 0)"
    and "evicted out \<noteq> None \<longleftrightarrow>
      \<not> hit out \<and> valid (cache_array s ! nat (set_index out) ! nat (way out))"
    and "\<not> hit out \<longrightarrow>
      cache_array s' = (cache_array s)[nat (set_index out) :=
        (cache_array s ! nat (set_index out))[nat (way out) :=
           \<lparr>valid = True, tag = tag_of s a, last_used = access_counter s + 1\<rparr>]]"
proof -
  show "evictions (stats s') = evictions (stats s) +
      (if \<not> hit out \<and> valid (cache_array s ! nat (set_index out) ! nat (way out))
       then 1 else 0)"
    using ok acc
  proof (cases rule: access_cache_result)
    case (Hit w)
    show ?thesis by (simp add: Hit(4,5) record_access_fields)
  next
    case (Miss w)
    show ?thesis
      by (simp add: Miss(4,5) record_access_fields record_eviction_fields)
  qed
  show "evicted out \<noteq> None \<longleftrightarrow>
      \<not> hit out \<and> valid (cache_array s ! nat (set_index out) ! nat (way out))"
    using ok acc
  proof (cases rule: access_cache_result)
    case (Hit w)
    show ?thesis by (simp add: Hit(4))
  next
    case (Miss w)
    show ?thesis by (simp add: Miss(4))
  qed
  show "\<not> hit out \<longrightarrow>
      cache_array s' = (cache_array s)[nat (set_index out) :=
        (cache_array s ! nat (set_index out))[nat (way out) :=
           \<lparr>valid = True, tag = tag_of s a, last_used = access_counter s + 1\<rparr>]]"
    using ok acc
  proof (cases rule: access_cache_result)
    case (Hit w)
    show ?thesis by (simp add: Hit(4))
  next
    case (Miss w)
    show ?thesis by (simp add: Miss(4,5))
  qed
qed

lemma statistics_example_run:
  "(case CacheSimulator_init 32 16 2 ''LRU'' of
      Inl e \<Rightarrow> None
    | Inr s0 \<Rightarrow>
       (case run_trace s0 [0x000, 0x200, 0x000] of
          Inl e \<Rightarrow> None
        | Inr (outs, s) \<Rightarrow>
           (case access_cache s 0x400 of
              Inl e \<Rightarrow> None
            | Inr (out, s') \<Rightarrow>
                Some (length (filter hit outs),
                      length (filter (\<lambda>out. \<not> hit out) outs),
                      length (filter (\<lambda>out. \<not> hit out \<and> evicted out \<noteq> None) outs),
                      hit out, set_index out, way out,
                      valid (cache_array s ! 0 ! 1))))) =
   Some (1, 2, 0, False, 0, 1, True)"
  by code_simp

text \<open>
  C10. After any finite sequence of accesses on a freshly constructed cache, hits plus
  misses is the number of accesses, and the eviction count is the number of accesses
  that missed and evicted, hence at most the number of misses; no hit evicts. The next
  access, whatever its address, adds one to the eviction count exactly when it misses
  and the line it selects (way \<open>way\<close> of set \<open>set_index\<close>, the line it then overwrites)
  was valid before the access, and reports an evicted tag in exactly that case.
\<close>

theorem statistics_counters_consistent:
  assumes "CacheSimulator_init csz bsz assoc policy = Inr s0"
    and "run_trace s0 trace = Inr (outs, s)"
  shows "hits (stats s) + misses (stats s) = total_accesses (stats s) \<and>
    total_accesses (stats s) = int (length trace) \<and>
    hits (stats s) = int (length (filter hit outs)) \<and>
    misses (stats s) = int (length (filter (\<lambda>out. \<not> hit out) outs)) \<and>
    evictions (stats s) \<le> misses (stats s) \<and>
    evictions (stats s) =
      int (length (filter (\<lambda>out. \<not> hit out \<and> evicted out \<noteq> None) outs)) \<and>
    (\<forall>out \<in> set outs. hit out \<longrightarrow> evicted out = None) \<and>
    (\<forall>a out s'. access_cache s a = Inr (out, s') \<longrightarrow>
       evictions (stats s') = evictions (stats s) +
         (if \<not> hit out \<and> valid (cache_array s ! nat (set_index out) ! nat (way out))
          then 1 else 0) \<and>
       (evicted out \<noteq> None \<longleftrightarrow>
          \<not> hit out \<and> valid (cache_array s ! nat (set_index out) ! nat (way out))) \<and>
       (\<not> hit out \<longrightarrow>
          cache_array s' = (cache_array s)[nat (set_index out) :=
            (cache_array s ! nat (set_index out))[nat (way out) :=
               \<lparr>valid = True, tag = tag_of s a, last_used = access_counter s + 1\<rparr>]]))"
proof -
  have ok0: "shape_ok s0" using assms(1) by (rule CacheSimulator_init_shape)
  have st0: "stats s0 = CacheStats_init"
    using assms(1) by (rule CacheSimulator_init_fields)
  have len: "length outs = length trace"
    using ok0 assms(2) by (rule run_trace_invariants)
  have ok: "shape_ok s" using ok0 assms(2) by (rule run_trace_invariants)
  from run_trace_counters [OF ok0 assms(2)]
  have t: "total_accesses (stats s) = int (length outs)"
    and h: "hits (stats s) = int (length (filter hit outs))"
    and m: "misses (stats s) = int (length (filter (\<lambda>out. \<not> hit out) outs))"
    and e: "evictions (stats s) = int (length (filter (\<lambda>out. evicted out \<noteq> None) outs))"
    and n: "list_all (\<lambda>out. evicted out \<noteq> None \<longrightarrow> \<not> hit out) outs"
    by (simp_all add: st0 CacheStats_init_def)
  from n have n': "\<forall>out \<in> set outs. evicted out \<noteq> None \<longrightarrow> \<not> hit out"
    by (simp add: list_all_iff)
  have "length (filter hit outs) + length (filter (\<lambda>out. \<not> hit out) outs) = length outs"
    by (rule sum_length_filter_compl)
  then have 1: "hits (stats s) + misses (stats s) = total_accesses (stats s)"
    by (simp only: t h m of_nat_add [symmetric])
  have "length (filter (\<lambda>out. evicted out \<noteq> None) outs) \<le>
      length (filter (\<lambda>out. \<not> hit out) outs)"
    using n' by (rule length_filter_mono)
  then have 2: "evictions (stats s) \<le> misses (stats s)"
    by (simp only: e m of_nat_le_iff)
  have "filter (\<lambda>out. evicted out \<noteq> None) outs =
      filter (\<lambda>out. \<not> hit out \<and> evicted out \<noteq> None) outs"
    using n' by (intro filter_cong) auto
  then have 3: "evictions (stats s) =
      int (length (filter (\<lambda>out. \<not> hit out \<and> evicted out \<noteq> None) outs))"
    by (simp only: e)
  have 4: "\<forall>out \<in> set outs. hit out \<longrightarrow> evicted out = None"
    using n' by blast
  have 5: "\<forall>a out s'. access_cache s a = Inr (out, s') \<longrightarrow>
       evictions (stats s') = evictions (stats s) +
         (if \<not> hit out \<and> valid (cache_array s ! nat (set_index out) ! nat (way out))
          then 1 else 0) \<and>
       (evicted out \<noteq> None \<longleftrightarrow>
          \<not> hit out \<and> valid (cache_array s ! nat (set_index out) ! nat (way out))) \<and>
       (\<not> hit out \<longrightarrow>
          cache_array s' = (cache_array s)[nat (set_index out) :=
            (cache_array s ! nat (set_index out))[nat (way out) :=
               \<lparr>valid = True, tag = tag_of s a, last_used = access_counter s + 1\<rparr>]])"
    using access_cache_eviction [OF ok] by blast
  have 6: "total_accesses (stats s) = int (length trace)" by (simp only: t len)
  from 1 6 h m 2 3 4 5 show ?thesis by blast
qed

theorem statistics_counters_consistent_witness:
  "\<exists>s0 outs s out s'. CacheSimulator_init 32 16 2 ''LRU'' = Inr s0 \<and>
     run_trace s0 [0x000, 0x200, 0x000] = Inr (outs, s) \<and>
     total_accesses (stats s) = 3 \<and> hits (stats s) = 1 \<and> misses (stats s) = 2 \<and>
     evictions (stats s) = 0 \<and>
     access_cache s 0x400 = Inr (out, s') \<and> \<not> hit out \<and>
     valid (cache_array s ! 0 ! 1) \<and> set_index out = 0 \<and> way out = 1 \<and>
     evictions (stats s') = 1"
proof -
  obtain s0 where s0: "CacheSimulator_init 32 16 2 ''LRU'' = Inr s0"
    using small_cache_constructed by blast
  have ok0: "shape_ok s0" using s0 by (rule CacheSimulator_init_shape)
  obtain outs s where run: "run_trace s0 [0x000, 0x200, 0x000] = Inr (outs, s)"
    using run_trace_total [OF ok0] by blast
  have ok: "shape_ok s" using ok0 run by (rule run_trace_invariants)
  obtain out s' where acc: "access_cache s 0x400 = Inr (out, s')"
    using access_cache_total [OF ok] by blast
  have ex: "length (filter hit outs) = 1" "length (filter (\<lambda>out. \<not> hit out) outs) = 2"
    "length (filter (\<lambda>out. \<not> hit out \<and> evicted out \<noteq> None) outs) = 0"
    "hit out = False" "set_index out = 0" "way out = 1" "valid (cache_array s ! 0 ! 1) = True"
    using statistics_example_run
    by (simp_all only: s0 run acc sum.case prod.case option.inject prod.inject)
  note c = statistics_counters_consistent [OF s0 run]
  from c have "total_accesses (stats s) = int (length [0x000, 0x200, 0x000 :: int])"
    and "hits (stats s) = int (length (filter hit outs))"
    and "misses (stats s) = int (length (filter (\<lambda>out. \<not> hit out) outs))"
    and "evictions (stats s) =
      int (length (filter (\<lambda>out. \<not> hit out \<and> evicted out \<noteq> None) outs))"
    by blast+
  then have t: "total_accesses (stats s) = 3" and h: "hits (stats s) = 1"
    and m: "misses (stats s) = 2" and e: "evictions (stats s) = 0"
    by (simp_all only: ex(1-3) list.size of_nat_numeral of_nat_1 of_nat_0)
  have miss: "\<not> hit out" by (simp add: ex(4))
  have v: "valid (cache_array s ! 0 ! 1)" using ex(7) by simp
  from c acc have "evictions (stats s') = evictions (stats s) +
         (if \<not> hit out \<and> valid (cache_array s ! nat (set_index out) ! nat (way out))
          then 1 else 0)"
    by blast
  then have e': "evictions (stats s') = 1"
    using v by (simp add: e ex(4,5,6))
  show ?thesis
    by (intro exI conjI) (rule s0 run t h m e acc miss v ex(5) ex(6) e')+
qed

section \<open>The LRU policy\<close>

lemma fresh_access_misses:
  assumes init: "CacheSimulator_init csz bsz assoc policy = Inr s0"
    and acc: "access_cache s0 a = Inr (out, s')"
  shows "\<not> hit out"
proof -
  have ok: "shape_ok s0" using init by (rule CacheSimulator_init_shape)
  note f = CacheSimulator_init_fields [OF init]
  have si: "nat (set_index_of s0 a) < nat (num_sets s0)"
    using set_index_of_range [OF f(8), of a] by simp
  show ?thesis
    using ok acc
  proof (cases rule: access_cache_result)
    case (Hit w)
    have "w < nat assoc" using Hit(1) by (simp add: f(1))
    then have "cache_array s0 ! nat (set_index_of s0 a) ! w = CacheLine_init"
      using si by (simp add: f(5))
    then show ?thesis using Hit(2) by (simp add: CacheLine_init_def)
  next
    case (Miss w)
    then show ?thesis by simp
  qed
qed

lemma run_trace_reachable:
  "reachable s \<Longrightarrow> run_trace s tr = Inr (outs, s') \<Longrightarrow> reachable s'"
proof (induction tr arbitrary: s outs)
  case Nil
  then show ?case by simp
next
  case (Cons a tr)
  from Cons.prems(2) obtain out s1 outs1 where st: "access_cache s a = Inr (out, s1)"
    "run_trace s1 tr = Inr (outs1, s')" "outs = out # outs1"
    by (rule run_trace_Cons)
  have "reachable s1" using Cons.prems(1) st(1) by (rule reachable.accessed)
  then show ?case using st(2) by (rule Cons.IH)
qed

lemma lru_example_run:
  "(case CacheSimulator_init 32 16 2 ''LRU'' of
      Inl e \<Rightarrow> None
    | Inr s0 \<Rightarrow>
       (case run_trace s0 [0x000, 0x200, 0x000] of
          Inl e \<Rightarrow> None
        | Inr (outs, s) \<Rightarrow>
           (case access_cache s 0x400 of
              Inl e \<Rightarrow> None
            | Inr (out, s') \<Rightarrow>
                Some (replacement_policy s, cache_array s, access_counter s,
                      set_index_of s 0x400, tag_of s 0x400, hit out)))) =
   Some (''LRU'',
         [[\<lparr>valid = True, tag = 0, last_used = 3\<rparr>,
           \<lparr>valid = True, tag = 32, last_used = 2\<rparr>]],
         3, 0, 64, False)"
  by code_simp

lemma lru_example_first_fill:
  "(case CacheSimulator_init 32 16 2 ''LRU'' of
      Inl e \<Rightarrow> None
    | Inr s0 \<Rightarrow>
       (case run_trace s0 [0x000] of
          Inl e \<Rightarrow> None
        | Inr (outs, s) \<Rightarrow>
           (case access_cache s 0x200 of
              Inl e \<Rightarrow> None
            | Inr (out, s') \<Rightarrow>
                Some (replacement_policy s, cache_array s, access_counter s,
                      set_index_of s 0x200, tag_of s 0x200, hit out)))) =
   Some (''LRU'',
         [[\<lparr>valid = True, tag = 0, last_used = 1\<rparr>,
           \<lparr>valid = False, tag = 0, last_used = 0\<rparr>]],
         1, 0, 32, False)"
  by code_simp

text \<open>
  C4. Under LRU, an access that misses in a reachable state replaces the way with the
  smallest \<open>last_used\<close> of the selected set, the lowest such way when several tie; so
  when the set has an invalid line (its \<open>last_used\<close> is 0, a valid line's at least 1)
  the way replaced is invalid and nothing is evicted. The way reported is the one
  overwritten: the new state differs from the old in that line alone, now valid with the
  address's tag and the new counter value, and the tag reported as evicted is the one
  that line held when it was valid.
\<close>

theorem lru_victim_first_least_recent:
  fixes s :: CacheSimulator
  defines "A \<equiv> nat (associativity s)"
  assumes "reachable s" and "replacement_policy s = ''LRU''"
    and "access_cache s address = Inr (out, s')" and "\<not> hit out"
  shows "0 \<le> way out \<and> nat (way out) < A \<and>
    (\<forall>w < A. last_used (cache_array s ! nat (set_index out) ! nat (way out))
              \<le> last_used (cache_array s ! nat (set_index out) ! w)) \<and>
    (\<forall>w < nat (way out). last_used (cache_array s ! nat (set_index out) ! nat (way out))
              < last_used (cache_array s ! nat (set_index out) ! w)) \<and>
    ((\<exists>w < A. \<not> valid (cache_array s ! nat (set_index out) ! w)) \<longrightarrow>
       \<not> valid (cache_array s ! nat (set_index out) ! nat (way out)) \<and> evicted out = None) \<and>
    set_index out = set_index_of s address \<and>
    evicted out =
      (if valid (cache_array s ! nat (set_index out) ! nat (way out))
       then Some (tag (cache_array s ! nat (set_index out) ! nat (way out))) else None) \<and>
    cache_array s' = (cache_array s)[nat (set_index out) :=
       (cache_array s ! nat (set_index out))[nat (way out) :=
          \<lparr>valid = True, tag = tag_of s address, last_used = access_counter s + 1\<rparr>]] \<and>
    access_counter s' = access_counter s + 1"
proof -
  from assms(2) have ok: "shape_ok s" and tm: "times_ok s"
    by (simp_all add: reachable_invariants)
  let ?cs = "cache_array s ! nat (set_index_of s address)"
  from ok have ns: "1 \<le> num_sets s" and lca: "length (cache_array s) = nat (num_sets s)"
    and lens: "\<forall>cs \<in> set (cache_array s). length cs = nat (associativity s)"
    by (simp_all add: shape_ok_def)
  have "nat (set_index_of s address) < length (cache_array s)"
    using set_index_of_range [OF ns, of address] lca by simp
  then have mem: "?cs \<in> set (cache_array s)" by simp
  then have len: "length ?cs = A" using lens by (simp add: A_def)
  have lines: "line_ok (access_counter s) (?cs ! w)" if "w < A" for w
  proof -
    have "?cs ! w \<in> set ?cs" using that len by simp
    then show ?thesis using tm mem by (auto simp: times_ok_def)
  qed
  from ok assms(4) show ?thesis
  proof (cases rule: access_cache_result)
    case (Hit w)
    then show ?thesis using assms(5) by simp
  next
    case (Miss w)
    have pol: "replacement_policy s \<noteq> ''FIFO''" using assms(3) by simp
    with Miss(3) have flr: "first_least_recent ?cs A w" by (simp add: A_def)
    then have w: "w < A" and least: "\<forall>v < A. last_used (?cs ! w) \<le> last_used (?cs ! v)"
      and first: "\<forall>v < w. last_used (?cs ! w) < last_used (?cs ! v)"
      by (simp_all add: first_least_recent_def)
    have o: "set_index out = set_index_of s address" "way out = int w"
      "evicted out = (if valid (?cs ! w) then Some (tag (?cs ! w)) else None)"
      by (simp_all add: Miss(4))
    have inv: "\<not> valid (?cs ! w)" if "\<exists>v < A. \<not> valid (?cs ! v)"
    proof
      assume val: "valid (?cs ! w)"
      from that obtain v where v: "v < A" "\<not> valid (?cs ! v)" by blast
      have "last_used (?cs ! v) = 0" using lines [OF v(1)] v(2) by (simp add: line_ok_def)
      moreover have "1 \<le> last_used (?cs ! w)"
        using lines [OF w] val by (simp add: line_ok_def)
      ultimately show False using least v(1) by fastforce
    qed
    have ca: "cache_array s' = (cache_array s)[nat (set_index_of s address) :=
       ?cs[w := \<lparr>valid = True, tag = tag_of s address, last_used = access_counter s + 1\<rparr>]]"
      by (simp add: Miss(5))
    have ac: "access_counter s' = access_counter s + 1"
      by (simp add: Miss(5))
    show ?thesis
      using w least first inv ca ac by (simp add: o)
  qed
qed

theorem lru_victim_first_least_recent_witness:
  "\<exists>s0 outs s out s' outs1 s1 out1 s1'.
     CacheSimulator_init 32 16 2 ''LRU'' = Inr s0 \<and>
     run_trace s0 [0x000, 0x200, 0x000] = Inr (outs, s) \<and> reachable s \<and>
     replacement_policy s = ''LRU'' \<and>
     cache_array s = [[\<lparr>valid = True, tag = 0, last_used = 3\<rparr>,
                       \<lparr>valid = True, tag = 32, last_used = 2\<rparr>]] \<and>
     access_cache s 0x400 = Inr (out, s') \<and> \<not> hit out \<and>
     way out = 1 \<and> evicted out = Some 32 \<and>
     cache_array s' = [[\<lparr>valid = True, tag = 0, last_used = 3\<rparr>,
                        \<lparr>valid = True, tag = 64, last_used = 4\<rparr>]] \<and>
     run_trace s0 [0x000] = Inr (outs1, s1) \<and>
     cache_array s1 = [[\<lparr>valid = True, tag = 0, last_used = 1\<rparr>,
                        \<lparr>valid = False, tag = 0, last_used = 0\<rparr>]] \<and>
     access_cache s1 0x200 = Inr (out1, s1') \<and> \<not> hit out1 \<and>
     way out1 = 1 \<and> evicted out1 = None \<and>
     cache_array s1' = [[\<lparr>valid = True, tag = 0, last_used = 1\<rparr>,
                         \<lparr>valid = True, tag = 32, last_used = 2\<rparr>]]"
proof -
  obtain s0 where s0: "CacheSimulator_init 32 16 2 ''LRU'' = Inr s0"
    using small_cache_constructed by blast
  have ok0: "shape_ok s0" using s0 by (rule CacheSimulator_init_shape)
  have r0: "reachable s0" using s0 by (rule reachable.constructed)
  \<comment> \<open>a full set: the less recently used way 1 is replaced, not the lower way 0\<close>
  obtain outs s where run: "run_trace s0 [0x000, 0x200, 0x000] = Inr (outs, s)"
    using run_trace_total [OF ok0] by blast
  have ok: "shape_ok s" using ok0 run by (rule run_trace_invariants)
  have r: "reachable s" using r0 run by (rule run_trace_reachable)
  obtain out s' where acc: "access_cache s 0x400 = Inr (out, s')"
    using access_cache_total [OF ok] by blast
  have ex: "replacement_policy s = ''LRU''"
    "cache_array s = [[\<lparr>valid = True, tag = 0, last_used = 3\<rparr>,
                       \<lparr>valid = True, tag = 32, last_used = 2\<rparr>]]"
    "access_counter s = 3" "set_index_of s 0x400 = 0" "tag_of s 0x400 = 64" "hit out = False"
    using lru_example_run
    by (simp_all only: s0 run acc sum.case prod.case option.inject prod.inject)
  have miss: "\<not> hit out" by (simp add: ex(6))
  note v = lru_victim_first_least_recent [OF r ex(1) acc miss]
  have si: "nat (set_index out) = 0" using v by (simp add: ex(4))
  have a2: "nat (associativity s) = 2"
    using run_trace_invariants(3) [OF ok0 run] CacheSimulator_init_fields(1) [OF s0] by simp
  have w2: "nat (way out) < 2" using v by (simp add: a2)
  have "nat (way out) \<noteq> 0"
  proof
    assume z: "nat (way out) = 0"
    from v have "\<forall>w < nat (associativity s).
        last_used (cache_array s ! nat (set_index out) ! nat (way out))
        \<le> last_used (cache_array s ! nat (set_index out) ! w)"
      by blast
    then have "last_used (cache_array s ! nat (set_index out) ! nat (way out))
        \<le> last_used (cache_array s ! nat (set_index out) ! 1)"
      by (simp add: a2)
    then show False by (simp add: z si ex(2))
  qed
  with w2 have nw: "nat (way out) = 1" by simp
  with v have w: "way out = 1" by simp
  have ev: "evicted out = Some 32" using v by (simp add: si nw ex(2))
  have ca: "cache_array s' = [[\<lparr>valid = True, tag = 0, last_used = 3\<rparr>,
                        \<lparr>valid = True, tag = 64, last_used = 4\<rparr>]]"
    using v by (simp add: si nw ex(2,3,5))
  \<comment> \<open>a set with one invalid line: that line is taken and nothing is evicted\<close>
  obtain outs1 s1 where run1: "run_trace s0 [0x000] = Inr (outs1, s1)"
    using run_trace_total [OF ok0] by blast
  have ok1: "shape_ok s1" using ok0 run1 by (rule run_trace_invariants)
  have r1: "reachable s1" using r0 run1 by (rule run_trace_reachable)
  obtain out1 s1' where acc1: "access_cache s1 0x200 = Inr (out1, s1')"
    using access_cache_total [OF ok1] by blast
  have ex1: "replacement_policy s1 = ''LRU''"
    "cache_array s1 = [[\<lparr>valid = True, tag = 0, last_used = 1\<rparr>,
                        \<lparr>valid = False, tag = 0, last_used = 0\<rparr>]]"
    "access_counter s1 = 1" "set_index_of s1 0x200 = 0" "tag_of s1 0x200 = 32"
    "hit out1 = False"
    using lru_example_first_fill
    by (simp_all only: s0 run1 acc1 sum.case prod.case option.inject prod.inject)
  have miss1: "\<not> hit out1" by (simp add: ex1(6))
  note v1 = lru_victim_first_least_recent [OF r1 ex1(1) acc1 miss1]
  have si1: "nat (set_index out1) = 0" using v1 by (simp add: ex1(4))
  have a21: "nat (associativity s1) = 2"
    using run_trace_invariants(3) [OF ok0 run1] CacheSimulator_init_fields(1) [OF s0] by simp
  have "\<exists>w < nat (associativity s1). \<not> valid (cache_array s1 ! nat (set_index out1) ! w)"
    by (intro exI [of _ 1]) (simp add: a21 si1 ex1(2))
  with v1 have inv1: "\<not> valid (cache_array s1 ! nat (set_index out1) ! nat (way out1))"
    and ev1: "evicted out1 = None" by blast+
  have w21: "nat (way out1) < 2" using v1 by (simp add: a21)
  have "nat (way out1) \<noteq> 0"
  proof
    assume "nat (way out1) = 0"
    with inv1 show False by (simp add: si1 ex1(2))
  qed
  with w21 have nw1: "nat (way out1) = 1" by simp
  with v1 have w1: "way out1 = 1" by simp
  have ca1: "cache_array s1' = [[\<lparr>valid = True, tag = 0, last_used = 1\<rparr>,
                         \<lparr>valid = True, tag = 32, last_used = 2\<rparr>]]"
    using v1 by (simp add: si1 nw1 ex1(2,3,5))
  show ?thesis
    by (intro exI conjI)
      (rule s0 run r ex(1) ex(2) acc miss w ev ca run1 ex1(2) acc1 miss1 w1 ev1 ca1)+
qed

section \<open>The FIFO policy\<close>

lemma access_cache_fifo:
  assumes ok: "shape_ok s" and pol: "replacement_policy s = ''FIFO''"
    and acc: "access_cache s a = Inr (out, s')"
  shows "if hit out then fifo_idx s' = fifo_idx s
         else way out = fifo_idx s ! nat (set_index out) \<and>
              fifo_idx s' = (fifo_idx s)[nat (set_index out) :=
                 (fifo_idx s ! nat (set_index out) + 1) mod associativity s]"
  using ok acc
proof (cases rule: access_cache_result)
  case (Hit w)
  show ?thesis by (simp add: Hit(4,5))
next
  case (Miss w)
  show ?thesis using Miss(3) pol by (simp add: Miss(4,5))
qed

lemma fifo_run_from_cursor:
  assumes "shape_ok s" "replacement_policy s = ''FIFO''" "0 \<le> i" "i < num_sets s"
    and "run_trace s tr = Inr (outs, s')"
  shows "map way (filter (\<lambda>out. \<not> hit out \<and> set_index out = i) outs) =
     map (\<lambda>k. (fifo_idx s ! nat i + int k) mod associativity s)
       [0..<length (filter (\<lambda>out. \<not> hit out \<and> set_index out = i) outs)]"
  using assms
proof (induction tr arbitrary: s outs)
  case Nil
  then show ?case by simp
next
  case (Cons a tr)
  let ?M = "\<lambda>out. \<not> hit out \<and> set_index out = i"
  let ?A = "associativity s"
  from Cons.prems(5) obtain out s1 outs1 where st: "access_cache s a = Inr (out, s1)"
    "run_trace s1 tr = Inr (outs1, s')" "outs = out # outs1"
    by (rule run_trace_Cons)
  note fr = access_cache_frame [OF Cons.prems(1) st(1)]
  note oc = access_cache_outcome [OF Cons.prems(1) st(1)]
  note ff = access_cache_fifo [OF Cons.prems(1,2) st(1)]
  have ok1: "shape_ok s1" using Cons.prems(1) st(1) by (rule access_cache_shape)
  have pol1: "replacement_policy s1 = ''FIFO''" using Cons.prems(2) by (simp add: fr(3))
  have i1: "i < num_sets s1" using Cons.prems(4) by (simp add: fr(1))
  have IH: "map way (filter ?M outs1) =
     map (\<lambda>k. (fifo_idx s1 ! nat i + int k) mod ?A) [0..<length (filter ?M outs1)]"
    using Cons.IH [OF ok1 pol1 Cons.prems(3) i1 st(2)] by (simp add: fr(2))
  from Cons.prems(1) have as: "1 \<le> ?A" and lfi: "length (fifo_idx s) = nat (num_sets s)"
    and cur: "\<forall>c \<in> set (fifo_idx s). 0 \<le> c \<and> c < ?A"
    by (simp_all add: shape_ok_def)
  have ilt: "nat i < length (fifo_idx s)" using Cons.prems(3,4) lfi by simp
  then have "fifo_idx s ! nat i \<in> set (fifo_idx s)" by simp
  then have c: "0 \<le> fifo_idx s ! nat i" "fifo_idx s ! nat i < ?A" using cur by simp_all
  show ?case
  proof (cases "?M out")
    case True
    then have w: "way out = fifo_idx s ! nat i"
      and f1: "fifo_idx s1 ! nat i = (fifo_idx s ! nat i + 1) mod ?A"
      using ff ilt by simp_all
    have shift: "(\<lambda>k. (fifo_idx s1 ! nat i + int k) mod ?A) =
        (\<lambda>k. (fifo_idx s ! nat i + int (Suc k)) mod ?A)"
    proof
      fix k
      have "(fifo_idx s1 ! nat i + int k) mod ?A =
          ((fifo_idx s ! nat i + 1) mod ?A + int k) mod ?A"
        by (simp only: f1)
      also have "\<dots> = (fifo_idx s ! nat i + 1 + int k) mod ?A"
        by (rule mod_add_left_eq)
      also have "fifo_idx s ! nat i + 1 + int k = fifo_idx s ! nat i + int (Suc k)"
        by simp
      finally show "(fifo_idx s1 ! nat i + int k) mod ?A =
          (fifo_idx s ! nat i + int (Suc k)) mod ?A" .
    qed
    have first: "(fifo_idx s ! nat i + int 0) mod ?A = way out"
      using c by (simp add: w)
    have "map way (filter ?M outs) = way out # map way (filter ?M outs1)"
      using True by (simp add: st(3))
    also have "\<dots> = ((fifo_idx s ! nat i + int 0) mod ?A) #
        map (\<lambda>k. (fifo_idx s ! nat i + int (Suc k)) mod ?A) [0..<length (filter ?M outs1)]"
      by (simp only: IH shift first)
    also have "\<dots> = map (\<lambda>k. (fifo_idx s ! nat i + int k) mod ?A)
        [0..<Suc (length (filter ?M outs1))]"
      by (simp only: map_upt_Suc)
    also have "Suc (length (filter ?M outs1)) = length (filter ?M outs)"
      using True by (simp add: st(3))
    finally show ?thesis .
  next
    case False
    have keep: "fifo_idx s1 ! nat i = fifo_idx s ! nat i"
    proof (cases "hit out")
      case True
      then show ?thesis using ff by simp
    next
      case miss: False
      with False have "set_index out \<noteq> i" by simp
      then have "nat (set_index out) \<noteq> nat i"
        using oc(4) Cons.prems(3) by simp
      then show ?thesis using ff miss by simp
    qed
    have "filter ?M outs = filter ?M outs1" using False by (simp add: st(3))
    then show ?thesis using IH by (simp only: keep)
  qed
qed

lemma run_trace_set_indices:
  assumes "shape_ok s" "run_trace s tr = Inr (outs, s')"
  shows "\<forall>out \<in> set outs. 0 \<le> set_index out \<and> set_index out < num_sets s"
  using assms
proof (induction tr arbitrary: s outs)
  case Nil
  then show ?case by simp
next
  case (Cons a tr)
  from Cons.prems(2) obtain out s1 outs1 where st: "access_cache s a = Inr (out, s1)"
    "run_trace s1 tr = Inr (outs1, s')" "outs = out # outs1"
    by (rule run_trace_Cons)
  note fr = access_cache_frame [OF Cons.prems(1) st(1)]
  note oc = access_cache_outcome [OF Cons.prems(1) st(1)]
  have ok1: "shape_ok s1" using Cons.prems(1) st(1) by (rule access_cache_shape)
  from Cons.IH [OF ok1 st(2)] oc(4,5) show ?case
    by (simp add: st(3) fr(1))
qed

lemma fifo_example_run:
  "(case CacheSimulator_init 32 16 2 ''FIFO'' of
      Inl e \<Rightarrow> None
    | Inr s0 \<Rightarrow>
       (case run_trace s0 [0x000, 0x200, 0x000, 0x400, 0x600] of
          Inl e \<Rightarrow> None
        | Inr (outs, s) \<Rightarrow>
            Some (replacement_policy s0, map hit outs,
                  length (filter (\<lambda>out. \<not> hit out \<and> set_index out = 0) outs)))) =
   Some (''FIFO'', [False, False, True, False, False], 4)"
  by code_simp

text \<open>
  C5. Under FIFO, from a freshly constructed cache, the ways replaced by the successive
  misses on any one set are 0, 1, ..., associativity - 1, 0, 1, ...: the \<open>k\<close>-th miss on
  the set replaces way \<open>k mod associativity\<close>, whatever the hits in between and whether
  or not the line replaced was valid.
\<close>

theorem fifo_victims_cycle:
  assumes "CacheSimulator_init csz bsz assoc policy = Inr s0"
    and "replacement_policy s0 = ''FIFO''"
    and "run_trace s0 trace = Inr (outs, s)"
  shows "map way (filter (\<lambda>out. \<not> hit out \<and> set_index out = i) outs) =
     map (\<lambda>k. int k mod assoc)
       [0..<length (filter (\<lambda>out. \<not> hit out \<and> set_index out = i) outs)]"
proof (cases "0 \<le> i \<and> i < num_sets s0")
  case True
  have ok: "shape_ok s0" using assms(1) by (rule CacheSimulator_init_shape)
  note f = CacheSimulator_init_fields [OF assms(1)]
  have "nat i < nat (num_sets s0)" using True by simp
  then have "fifo_idx s0 ! nat i = 0" by (simp add: f(6))
  moreover have "map way (filter (\<lambda>out. \<not> hit out \<and> set_index out = i) outs) =
     map (\<lambda>k. (fifo_idx s0 ! nat i + int k) mod associativity s0)
       [0..<length (filter (\<lambda>out. \<not> hit out \<and> set_index out = i) outs)]"
    using ok assms(2) _ _ assms(3) by (rule fifo_run_from_cursor) (simp_all add: True)
  ultimately show ?thesis by (simp add: f(1))
next
  case False
  have ok: "shape_ok s0" using assms(1) by (rule CacheSimulator_init_shape)
  have "\<forall>out \<in> set outs. 0 \<le> set_index out \<and> set_index out < num_sets s0"
    using ok assms(3) by (rule run_trace_set_indices)
  then have "filter (\<lambda>out. \<not> hit out \<and> set_index out = i) outs = []"
    using False by (auto simp: filter_empty_conv)
  then show ?thesis by simp
qed

theorem fifo_victims_cycle_witness:
  "\<exists>s0 outs s. CacheSimulator_init 32 16 2 ''FIFO'' = Inr s0 \<and>
     replacement_policy s0 = ''FIFO'' \<and>
     run_trace s0 [0x000, 0x200, 0x000, 0x400, 0x600] = Inr (outs, s) \<and>
     map hit outs = [False, False, True, False, False] \<and>
     map way (filter (\<lambda>out. \<not> hit out \<and> set_index out = 0) outs) = [0, 1, 0, 1]"
proof -
  obtain s0 where s0: "CacheSimulator_init 32 16 2 ''FIFO'' = Inr s0"
    by (auto simp: CacheSimulator_init_def upper_policy_names)
  have ok: "shape_ok s0" using s0 by (rule CacheSimulator_init_shape)
  obtain outs s where r: "run_trace s0 [0x000, 0x200, 0x000, 0x400, 0x600] = Inr (outs, s)"
    using run_trace_total [OF ok] by blast
  have ex: "replacement_policy s0 = ''FIFO''"
    "map hit outs = [False, False, True, False, False]"
    "length (filter (\<lambda>out. \<not> hit out \<and> set_index out = 0) outs) = 4"
    using fifo_example_run by (simp_all only: s0 r sum.case prod.case option.inject prod.inject)
  have "map way (filter (\<lambda>out. \<not> hit out \<and> set_index out = 0) outs) =
     map (\<lambda>k. int k mod 2)
       [0..<length (filter (\<lambda>out. \<not> hit out \<and> set_index out = 0) outs)]"
    using s0 ex(1) r by (rule fifo_victims_cycle)
  also have "\<dots> = [0, 1, 0, 1]"
    unfolding ex(3) by code_simp
  finally have w: "map way (filter (\<lambda>out. \<not> hit out \<and> set_index out = 0) outs) =
      [0, 1, 0, 1]" .
  show ?thesis
    by (intro exI conjI) (rule s0 ex(1) r ex(2) w)+
qed

section \<open>Replaying a trace after a reset\<close>

lemma shift_line_fields:
  "valid (shift_line d l) = valid l" "tag (shift_line d l) = tag l"
  "last_used (shift_line d l) = (if valid l then last_used l + d else last_used l)"
  by (simp_all add: shift_line_def)

lemma shift_line_order:
  assumes "line_ok now l1" "line_ok now l2" "0 \<le> d"
  shows "last_used (shift_line d l1) < last_used (shift_line d l2) \<longleftrightarrow>
           last_used l1 < last_used l2"
    and "last_used (shift_line d l1) \<le> last_used (shift_line d l2) \<longleftrightarrow>
           last_used l1 \<le> last_used l2"
  using assms by (auto simp: shift_line_fields line_ok_def split: if_splits)

lemma first_least_recent_shift:
  assumes lines: "\<forall>v < n. line_ok now (cs ! v)" and n: "n \<le> length cs" and d: "0 \<le> d"
  shows "first_least_recent (map (shift_line d) cs) n w \<longleftrightarrow> first_least_recent cs n w"
proof (cases "w < n")
  case False
  then show ?thesis by (simp add: first_least_recent_def)
next
  case True
  have nth: "map (shift_line d) cs ! v = shift_line d (cs ! v)" if "v < n" for v
    using that n by simp
  have lw: "line_ok now (cs ! w)" using lines True by simp
  have le: "last_used (shift_line d (cs ! w)) \<le> last_used (shift_line d (cs ! v)) \<longleftrightarrow>
      last_used (cs ! w) \<le> last_used (cs ! v)" if "v < n" for v
  proof -
    have "line_ok now (cs ! v)" using lines that by simp
    with lw show ?thesis using d by (rule shift_line_order)
  qed
  have less: "last_used (shift_line d (cs ! w)) < last_used (shift_line d (cs ! v)) \<longleftrightarrow>
      last_used (cs ! w) < last_used (cs ! v)" if "v < n" for v
  proof -
    have "line_ok now (cs ! v)" using lines that by simp
    with lw show ?thesis using d by (rule shift_line_order)
  qed
  have "(\<forall>v < n. last_used (map (shift_line d) cs ! w) \<le> last_used (map (shift_line d) cs ! v))
      \<longleftrightarrow> (\<forall>v < n. last_used (cs ! w) \<le> last_used (cs ! v))"
    using True by (simp add: nth le)
  moreover have "(\<forall>v < w. last_used (map (shift_line d) cs ! w)
        < last_used (map (shift_line d) cs ! v))
      \<longleftrightarrow> (\<forall>v < w. last_used (cs ! w) < last_used (cs ! v))"
  proof -
    have "last_used (map (shift_line d) cs ! w) < last_used (map (shift_line d) cs ! v) \<longleftrightarrow>
        last_used (cs ! w) < last_used (cs ! v)" if "v < w" for v
    proof -
      from that True have "v < n" by simp
      then show ?thesis using True by (simp add: nth less)
    qed
    then show ?thesis by blast
  qed
  ultimately show ?thesis unfolding first_least_recent_def by blast
qed

lemma in_step_shape:
  assumes st: "in_step d s t" and ok: "shape_ok s"
  shows "shape_ok t"
proof -
  from st have f: "num_sets t = num_sets s" "associativity t = associativity s"
    "fifo_idx t = fifo_idx s" "cache_array t = map (map (shift_line d)) (cache_array s)"
    by (simp_all add: in_step_def)
  from ok have lens: "\<forall>cs \<in> set (cache_array s). length cs = nat (associativity s)"
    by (simp add: shape_ok_def)
  have "\<forall>cs \<in> set (cache_array t). length cs = nat (associativity t)"
  proof
    fix cs assume "cs \<in> set (cache_array t)"
    then obtain cs' where "cs' \<in> set (cache_array s)" "cs = map (shift_line d) cs'"
      unfolding f(4) by auto
    then show "length cs = nat (associativity t)" using lens by (simp add: f(2))
  qed
  moreover have "length (cache_array t) = nat (num_sets t)"
    using ok by (simp add: f shape_ok_def)
  moreover have "1 \<le> num_sets t" "1 \<le> associativity t" "length (fifo_idx t) = nat (num_sets t)"
    "\<forall>c \<in> set (fifo_idx t). 0 \<le> c \<and> c < associativity t"
    using ok by (simp_all add: f(1-3) shape_ok_def)
  ultimately show ?thesis unfolding shape_ok_def by blast
qed

lemma access_cache_in_step:
  assumes st: "in_step d s t" and ok: "shape_ok s" and tm: "times_ok s"
    and acc: "access_cache s a = Inr (out, s')"
  shows "\<exists>t'. access_cache t a = Inr (out, t') \<and> in_step d s' t'"
proof -
  let ?si = "nat (set_index_of s a)"
  let ?A = "nat (associativity s)"
  let ?cs = "cache_array s ! ?si"
  let ?ct = "cache_array t ! nat (set_index_of t a)"
  let ?n = "access_counter s + 1"
  from st have d: "0 \<le> d" and f: "num_sets t = num_sets s" "associativity t = associativity s"
    "replacement_policy t = replacement_policy s" "fifo_idx t = fifo_idx s"
    "access_counter t = access_counter s + d"
    "cache_array t = map (map (shift_line d)) (cache_array s)"
    by (simp_all add: in_step_def)
  have okt: "shape_ok t" using st ok by (rule in_step_shape)
  obtain out' t' where acct: "access_cache t a = Inr (out', t')"
    using access_cache_total [OF okt] by blast
  have six: "set_index_of t a = set_index_of s a" and tgx: "tag_of t a = tag_of s a"
    by (simp_all add: set_index_of_def tag_of_def f(1))
  from ok have ns: "1 \<le> num_sets s" and lca: "length (cache_array s) = nat (num_sets s)"
    and lens: "\<forall>cs \<in> set (cache_array s). length cs = ?A"
    by (simp_all add: shape_ok_def)
  have si: "?si < length (cache_array s)"
    using set_index_of_range [OF ns, of a] lca by simp
  then have mem: "?cs \<in> set (cache_array s)" by simp
  then have len: "length ?cs = ?A" using lens by simp
  have ct: "?ct = map (shift_line d) ?cs"
    using si by (simp add: six f(6))
  have nth: "?ct ! v = shift_line d (?cs ! v)" if "v < ?A" for v
    using that len by (simp add: ct)
  have match: "valid (?ct ! v) \<and> tag (?ct ! v) = tag_of t a \<longleftrightarrow>
      valid (?cs ! v) \<and> tag (?cs ! v) = tag_of s a" if "v < ?A" for v
    using that by (simp add: nth shift_line_fields tgx)
  have lines: "\<forall>v < ?A. line_ok (access_counter s) (?cs ! v)"
  proof (intro allI impI)
    fix v assume "v < ?A"
    then have "?cs ! v \<in> set ?cs" using len by simp
    then show "line_ok (access_counter s) (?cs ! v)"
      using tm mem by (auto simp: times_ok_def)
  qed
  have arr: "(cache_array t)[nat (set_index_of t a) := ?ct[w := shift_line d l]] =
      map (map (shift_line d)) ((cache_array s)[?si := ?cs[w := l]])" for w l
    by (simp add: six f(6) map_update ct [unfolded six f(6)])
  have "out' = out \<and> in_step d s' t'"
    using ok acc
  proof (cases rule: access_cache_result)
    case hs: (Hit w)
    show ?thesis
      using okt acct
    proof (cases rule: access_cache_result)
      case ht: (Hit w')
      have w': "w' < ?A" using ht(1) by (simp add: f(2))
      have mw: "valid (?ct ! w) \<and> tag (?ct ! w) = tag_of t a"
        using hs(1-3) match [of w] by simp
      have mw': "valid (?cs ! w') \<and> tag (?cs ! w') = tag_of s a"
        using ht(2,3) match [OF w'] by simp
      have "\<not> w < w'" using ht(6) mw by blast
      moreover have "\<not> w' < w" using hs(6) mw' by blast
      ultimately have eq: "w' = w" by simp
      have o: "out' = out" by (simp add: ht(4) hs(4) eq six)
      have l: "(?ct ! w)\<lparr>last_used := access_counter t + 1\<rparr> =
          shift_line d ((?cs ! w)\<lparr>last_used := ?n\<rparr>)"
        using hs(1,2) by (simp add: nth shift_line_def f(5))
      have ca: "cache_array t' = map (map (shift_line d)) (cache_array s')"
        using arr [of w "(?cs ! w)\<lparr>last_used := ?n\<rparr>"]
        by (simp add: ht(5) hs(5) eq l)
      have "in_step d s' t'"
        unfolding in_step_def using d ca by (simp add: ht(5) hs(5) f(1-5))
      with o show ?thesis by simp
    next
      case mt: (Miss w')
      have "valid (?ct ! w) \<and> tag (?ct ! w) = tag_of t a"
        using hs(1-3) match [of w] by simp
      moreover have "w < nat (associativity t)" using hs(1) by (simp add: f(2))
      ultimately show ?thesis using mt(2) by blast
    qed
  next
    case ms: (Miss w)
    show ?thesis
      using okt acct
    proof (cases rule: access_cache_result)
      case ht: (Hit w')
      have w': "w' < ?A" using ht(1) by (simp add: f(2))
      have "valid (?cs ! w') \<and> tag (?cs ! w') = tag_of s a"
        using ht(2,3) match [OF w'] by simp
      then show ?thesis using ms(2) w' by blast
    next
      case mt: (Miss w')
      have w': "w' < ?A" using mt(1) by (simp add: f(2))
      have eq: "w' = w"
      proof (cases "replacement_policy s = ''FIFO''")
        case True
        then have "int w' = int w" using ms(3) mt(3) by (simp add: f(3,4) six)
        then show ?thesis by simp
      next
        case False
        then have "first_least_recent ?ct ?A w'" "first_least_recent ?cs ?A w"
          using ms(3) mt(3) by (simp_all add: f(2,3))
        moreover have "first_least_recent ?ct ?A w' \<longleftrightarrow> first_least_recent ?cs ?A w'"
          unfolding ct using lines _ d by (rule first_least_recent_shift) (simp add: len)
        ultimately show ?thesis using first_least_recent_unique by blast
      qed
      have vw: "valid (?ct ! w) = valid (?cs ! w)" "tag (?ct ! w) = tag (?cs ! w)"
        using ms(1) by (simp_all add: nth shift_line_fields)
      have o: "out' = out" using vw by (simp add: mt(4) ms(4) eq six)
      have l: "\<lparr>valid = True, tag = tag_of t a, last_used = access_counter t + 1\<rparr> =
          shift_line d \<lparr>valid = True, tag = tag_of s a, last_used = ?n\<rparr>"
        by (simp add: shift_line_def f(5) tgx)
      have ca: "cache_array t' = map (map (shift_line d)) (cache_array s')"
        using arr [of w "\<lparr>valid = True, tag = tag_of s a, last_used = ?n\<rparr>"]
        by (simp add: mt(5) ms(5) eq l)
      have fi: "fifo_idx t' = fifo_idx s'"
        by (simp add: mt(5) ms(5) f(2-4) six)
      have "in_step d s' t'"
        unfolding in_step_def using d ca fi by (simp add: mt(5) ms(5) f(1-5))
      with o show ?thesis by simp
    qed
  qed
  with acct show ?thesis by blast
qed

lemma run_trace_in_step:
  assumes "in_step d s t" "shape_ok s" "times_ok s" "run_trace s tr = Inr (outs, s')"
  shows "\<exists>t'. run_trace t tr = Inr (outs, t') \<and> in_step d s' t'"
  using assms
proof (induction tr arbitrary: s t outs)
  case Nil
  then show ?case by simp
next
  case (Cons a tr)
  from Cons.prems(4) obtain out s1 outs1 where st: "access_cache s a = Inr (out, s1)"
    "run_trace s1 tr = Inr (outs1, s')" "outs = out # outs1"
    by (rule run_trace_Cons)
  from access_cache_in_step [OF Cons.prems(1-3) st(1)]
  obtain t1 where t1: "access_cache t a = Inr (out, t1)" "in_step d s1 t1" by blast
  have ok1: "shape_ok s1" using Cons.prems(2) st(1) by (rule access_cache_shape)
  have tm1: "times_ok s1" using Cons.prems(2,3) st(1) by (rule access_cache_times)
  from Cons.IH [OF t1(2) ok1 tm1 st(2)]
  obtain t' where t': "run_trace t1 tr = Inr (outs1, t')" "in_step d s' t'" by blast
  have "run_trace t (a # tr) = Inr (outs, t')"
    by (simp add: t1(1) t'(1) st(3))
  with t'(2) show ?case by blast
qed

lemma reset_in_step:
  assumes init: "CacheSimulator_init csz bsz assoc policy = Inr s0"
    and run: "run_trace s0 pre = Inr (outs, s1)"
  shows "\<exists>s2. init_cache s1 = Inr s2 \<and> access_counter s2 = int (length pre) \<and>
    stats s2 = stats s1 \<and> in_step (int (length pre)) s0 s2"
proof -
  have ok0: "shape_ok s0" using init by (rule CacheSimulator_init_shape)
  note f = CacheSimulator_init_fields [OF init]
  note inv = run_trace_invariants [OF ok0 run]
  let ?s2 = "s1\<lparr>cache_array := replicate (nat (num_sets s1))
                               (replicate (nat (associativity s1)) CacheLine_init),
            fifo_idx := replicate (nat (num_sets s1)) 0\<rparr>"
  have i: "init_cache s1 = Inr ?s2" using inv(1) by (rule init_cache_shape)
  have sh: "shift_line (int (length pre)) CacheLine_init = CacheLine_init"
    by (simp add: shift_line_def CacheLine_init_def)
  have "cache_array ?s2 = map (map (shift_line (int (length pre)))) (cache_array s0)"
    by (simp add: f(5) inv(2,3) f(1) sh)
  moreover have "fifo_idx ?s2 = fifo_idx s0"
    by (simp add: f(6) inv(2))
  moreover have "access_counter ?s2 = access_counter s0 + int (length pre)"
    by (simp add: inv(6))
  ultimately have "in_step (int (length pre)) s0 ?s2"
    unfolding in_step_def by (simp add: inv(2-4))
  moreover have "access_counter ?s2 = int (length pre)" "stats ?s2 = stats s1"
    by (simp_all add: inv(6) f(3))
  ultimately show ?thesis using i by blast
qed

text \<open>
  C6. For any accepted configuration and any trace: the run on the freshly constructed
  cache succeeds; \<open>init_cache\<close> on the cache it leaves succeeds and keeps the access
  counter (now the length of the trace); and the run of the same trace on that reset
  cache succeeds with the very same list of outcomes (hit or miss, set index, way, and
  tag evicted if any).
\<close>

theorem replay_after_reset_same_outcomes:
  assumes "CacheSimulator_init csz bsz assoc policy = Inr s0"
  shows "\<exists>outs s1 s2 s3. run_trace s0 trace = Inr (outs, s1) \<and>
    init_cache s1 = Inr s2 \<and> access_counter s2 = int (length trace) \<and>
    run_trace s2 trace = Inr (outs, s3)"
proof -
  have ok0: "shape_ok s0" using assms by (rule CacheSimulator_init_shape)
  have tm0: "times_ok s0" using assms by (rule CacheSimulator_init_times)
  obtain outs s1 where r1: "run_trace s0 trace = Inr (outs, s1)"
    using run_trace_total [OF ok0] by blast
  from reset_in_step [OF assms r1] obtain s2 where s2: "init_cache s1 = Inr s2"
    "access_counter s2 = int (length trace)" "in_step (int (length trace)) s0 s2"
    by blast
  from run_trace_in_step [OF s2(3) ok0 tm0 r1]
  obtain s3 where "run_trace s2 trace = Inr (outs, s3)" by blast
  with r1 s2(1,2) show ?thesis by blast
qed

lemma replay_example_run:
  "(case CacheSimulator_init 32 16 2 ''LRU'' of
      Inl e \<Rightarrow> None
    | Inr s0 \<Rightarrow>
       (case run_trace s0 [0x000, 0x200, 0x000, 0x400] of
          Inl e \<Rightarrow> None
        | Inr (outs, s) \<Rightarrow> Some outs)) =
   Some [\<lparr>hit = False, set_index = 0, way = 0, evicted = None\<rparr>,
         \<lparr>hit = False, set_index = 0, way = 1, evicted = None\<rparr>,
         \<lparr>hit = True, set_index = 0, way = 0, evicted = None\<rparr>,
         \<lparr>hit = False, set_index = 0, way = 1, evicted = Some 32\<rparr>]"
  by code_simp

theorem replay_after_reset_same_outcomes_witness:
  "\<exists>s0 outs s1 s2 s3. CacheSimulator_init 32 16 2 ''LRU'' = Inr s0 \<and>
     run_trace s0 [0x000, 0x200, 0x000, 0x400] = Inr (outs, s1) \<and>
     init_cache s1 = Inr s2 \<and> access_counter s2 = 4 \<and>
     run_trace s2 [0x000, 0x200, 0x000, 0x400] = Inr (outs, s3) \<and>
     outs = [\<lparr>hit = False, set_index = 0, way = 0, evicted = None\<rparr>,
             \<lparr>hit = False, set_index = 0, way = 1, evicted = None\<rparr>,
             \<lparr>hit = True, set_index = 0, way = 0, evicted = None\<rparr>,
             \<lparr>hit = False, set_index = 0, way = 1, evicted = Some 32\<rparr>]"
proof -
  obtain s0 where s0: "CacheSimulator_init 32 16 2 ''LRU'' = Inr s0"
    using small_cache_constructed by blast
  from replay_after_reset_same_outcomes [OF s0, of "[0x000, 0x200, 0x000, 0x400]"]
  obtain outs s1 s2 s3 where r: "run_trace s0 [0x000, 0x200, 0x000, 0x400] = Inr (outs, s1)"
    "init_cache s1 = Inr s2" "access_counter s2 = int (length [0x000, 0x200, 0x000, 0x400 :: int])"
    "run_trace s2 [0x000, 0x200, 0x000, 0x400] = Inr (outs, s3)"
    by blast
  have c: "access_counter s2 = 4" using r(3) by simp
  have o: "outs = [\<lparr>hit = False, set_index = 0, way = 0, evicted = None\<rparr>,
             \<lparr>hit = False, set_index = 0, way = 1, evicted = None\<rparr>,
             \<lparr>hit = True, set_index = 0, way = 0, evicted = None\<rparr>,
             \<lparr>hit = False, set_index = 0, way = 1, evicted = Some 32\<rparr>]"
    using replay_example_run
    by (simp only: s0 r(1) sum.case prod.case option.inject)
  show ?thesis
    by (intro exI conjI) (rule s0 r(1) r(2) c r(4) o)+
qed

section \<open>Geometries the address decomposition does not fit\<close>

text \<open>
  C2 (a defect of the code). \<open>__init__\<close> checks that the parameters are positive, that
  the divisions are exact and that the policy is known, but not that \<open>num_sets\<close> is a
  power of two: 96 bytes in blocks of 16 with 2 ways is accepted, with 3 sets. The mask
  \<open>num_sets - 1 = 2\<close> then drops address bit 4 from the set index and the tag shift
  \<open>4 + (bit_length 3 - 1) = 5\<close> drops it from the tag, so the distinct blocks at 0x00
  and 0x10 are taken for one and the second access is reported as a hit.
\<close>

theorem three_sets_accepted_and_blocks_confused:
  "(case simulate 96 16 2 ''LRU'' [0x00, 0x10] of
      Inl e \<Rightarrow> None
    | Inr (outs, s) \<Rightarrow> Some (num_sets s, map hit outs, map set_index outs)) =
   Some (3, [False, True], [0, 0])"
  by code_simp

text \<open>
  C3 (a defect of the code). \<open>access_cache\<close> shifts the address by the constant 4,
  whatever \<open>block_size\<close> is. With blocks of 32 bytes (1024 bytes, 2 ways, 16 sets) the
  addresses 0x00 and 0x10 lie in one block, yet they are sent to sets 0 and 1 and the
  second access misses; with \<open>log2 block_size = 5\<close> both would fall in set 0 with tag 0.
\<close>

theorem block_offset_fixed_at_four_bits:
  "(case simulate 1024 32 2 ''LRU'' [0x00, 0x10] of
      Inl e \<Rightarrow> None
    | Inr (outs, s) \<Rightarrow> Some (block_size s, num_sets s, map hit outs, map set_index outs)) =
   Some (32, 16, [False, False], [0, 1])"
  by code_simp

end
